theory Spec2Isabelle
  imports Complex_Main "HOL-Library.AList"
begin

section \<open>Variables, states and errors\<close>

text \<open>
  The three scripts describe one discrete Bayesian network for medical diagnosis.
  Variables and state labels are Python strings. The label written S-i-acute in the scripts
  is not ASCII; it is kept as its UTF-8 bytes. Probabilities are Python floats in the
  scripts; here every decimal literal denotes the exact rational it is written as, and
  all arithmetic is exact.
\<close>

type_synonym var = string
type_synonym state = string

definition Si :: state where
  "Si = [CHR ''S'', CHR 0xC3, CHR 0xAD]"

definition No :: state where
  "No = ''No''"

datatype error =
    DuplicateVariableError
  | InvalidStatesError
  | UnknownVariableError
  | CyclicGraphError
  | MissingCPDError
  | ScopeMismatchError
  | UnnormalizedCPDError var "nat list"
  | InvalidQueryError
  | VariableNotInScopeError
  | InvalidStateError
  | DegenerateFactorError
  | ValueError

section \<open>Variable registry\<close>

text \<open>
  Modelled from the spec: the Variable Registry (section 4.1), which the scripts leave to
  the libraries. A registry is the list of declared variables, each with its ordered
  state labels, in declaration order.
\<close>

type_synonym registry = "(var \<times> state list) list"

definition define_variable :: "registry \<Rightarrow> var \<Rightarrow> state list \<Rightarrow> error + registry" where
  "define_variable reg name sts =
     (if name \<in> set (map fst reg) then Inl DuplicateVariableError
      else if sts = [] \<or> \<not> distinct sts then Inl InvalidStatesError
      else Inr (reg @ [(name, sts)]))"

definition lookup :: "registry \<Rightarrow> var \<Rightarrow> error + state list" where
  "lookup reg name = (case map_of reg name of None \<Rightarrow> Inl UnknownVariableError | Some sts \<Rightarrow> Inr sts)"

definition card_of :: "registry \<Rightarrow> var \<Rightarrow> nat" where
  "card_of reg v = (case map_of reg v of None \<Rightarrow> 0 | Some sts \<Rightarrow> length sts)"

fun index_in :: "'a list \<Rightarrow> 'a \<Rightarrow> nat option" where
  "index_in [] x = None"
| "index_in (y # ys) x = (if x = y then Some 0 else map_option Suc (index_in ys x))"

definition state_index :: "registry \<Rightarrow> var \<Rightarrow> state \<Rightarrow> nat option" where
  "state_index reg v st = (case map_of reg v of None \<Rightarrow> None | Some sts \<Rightarrow> index_in sts st)"

section \<open>Factors\<close>

text \<open>
  Modelled from the spec: the Factor of sections 3 and 4.2, a scope (ordered variable
  names) and a dense array of weights indexed by the Cartesian product of the scope's
  state spaces, in row-major order following the scope (the last variable varies fastest).
  The libraries' own factor classes are not part of the repository.
\<close>

record Factor =
  scope :: "var list"
  weights :: "rat list"

text \<open>All index tuples for a list of cardinalities, in array order.\<close>

fun assignments :: "nat list \<Rightarrow> nat list list" where
  "assignments [] = [[]]"
| "assignments (c # cs) = concat (map (\<lambda>s. map ((#) s) (assignments cs)) [0..<c])"

text \<open>Position of an index tuple in the dense array.\<close>

fun flat_index :: "nat list \<Rightarrow> nat list \<Rightarrow> nat" where
  "flat_index (c # cs) (s # ss) = s * prod_list cs + flat_index cs ss"
| "flat_index _ _ = 0"

text \<open>An assignment gives every variable a state index.\<close>

type_synonym assignment = "var \<Rightarrow> nat"

definition asg_of :: "var list \<Rightarrow> nat list \<Rightarrow> assignment" where
  "asg_of vs ss = (\<lambda>v. case map_of (zip vs ss) v of None \<Rightarrow> 0 | Some s \<Rightarrow> s)"

definition weight_at :: "registry \<Rightarrow> Factor \<Rightarrow> assignment \<Rightarrow> rat" where
  "weight_at reg f a =
     weights f ! flat_index (map (card_of reg) (scope f)) (map a (scope f))"

text \<open>The factor over scope \<open>sc\<close> whose weight at each assignment is given by \<open>F\<close>.\<close>

definition tabulate :: "registry \<Rightarrow> var list \<Rightarrow> (assignment \<Rightarrow> rat) \<Rightarrow> Factor" where
  "tabulate reg sc F =
     \<lparr>scope = sc, weights = map (\<lambda>ss. F (asg_of sc ss)) (assignments (map (card_of reg) sc))\<rparr>"

text \<open>
  The invariants of a factor: no variable twice in the scope, every variable declared,
  no negative weight, and as many weights as the scope has assignments.
\<close>

definition well_formed :: "registry \<Rightarrow> Factor \<Rightarrow> bool" where
  "well_formed reg f \<longleftrightarrow>
     distinct (scope f) \<and> list_all (\<lambda>v. v \<in> set (map fst reg)) (scope f) \<and>
     list_all (\<lambda>w. 0 \<le> w) (weights f) \<and>
     length (weights f) = prod_list (map (card_of reg) (scope f))"

definition product :: "registry \<Rightarrow> Factor \<Rightarrow> Factor \<Rightarrow> Factor" where
  "product reg f g =
     tabulate reg (scope f @ filter (\<lambda>v. v \<notin> set (scope f)) (scope g))
       (\<lambda>a. weight_at reg f a * weight_at reg g a)"

definition marginalize :: "registry \<Rightarrow> var \<Rightarrow> Factor \<Rightarrow> error + Factor" where
  "marginalize reg v f =
     (if v \<notin> set (scope f) then Inl VariableNotInScopeError
      else Inr (tabulate reg (filter (\<lambda>u. u \<noteq> v) (scope f))
                  (\<lambda>a. sum_list (map (\<lambda>s. weight_at reg f (a(v := s))) [0..<card_of reg v]))))"

definition reduceByEvidence :: "registry \<Rightarrow> var \<Rightarrow> state \<Rightarrow> Factor \<Rightarrow> error + Factor" where
  "reduceByEvidence reg v st f =
     (if v \<notin> set (scope f) then Inl VariableNotInScopeError
      else case state_index reg v st of
             None \<Rightarrow> Inl InvalidStateError
           | Some s \<Rightarrow> Inr (tabulate reg (filter (\<lambda>u. u \<noteq> v) (scope f))
                              (\<lambda>a. weight_at reg f (a(v := s)))))"

definition normalize :: "Factor \<Rightarrow> error + Factor" where
  "normalize f =
     (let z = sum_list (weights f)
      in if z = 0 then Inl DegenerateFactorError
         else Inr (f\<lparr>weights := map (\<lambda>w. w / z) (weights f)\<rparr>))"

definition unit_factor :: Factor where
  "unit_factor = \<lparr>scope = [], weights = [1]\<rparr>"

definition product_all :: "registry \<Rightarrow> Factor list \<Rightarrow> Factor" where
  "product_all reg fs = foldr (product reg) fs unit_factor"

section \<open>Bayesian network model\<close>

text \<open>
  Modelled from the spec: the Bayesian Network Model of sections 3 and 4.3. The scripts
  hand the graph and the tables to a library; the model below is the spec's: the declared
  variables, the parent-to-child edges, and one CPT factor per variable, whose scope is
  the child followed by its parents.
\<close>

record Model =
  variables :: registry
  edges :: "(var \<times> var) list"
  cpts :: "(var \<times> Factor) list"

definition var_names :: "Model \<Rightarrow> var list" where
  "var_names m = map fst (variables m)"

definition parents :: "Model \<Rightarrow> var \<Rightarrow> var list" where
  "parents m v = map fst (filter (\<lambda>e. snd e = v) (edges m))"

text \<open>
  Topological sort: repeatedly take the first variable that has no parent among the
  variables still to be sorted. The fuel is the number of variables.
\<close>

fun topo_sort :: "nat \<Rightarrow> var list \<Rightarrow> (var \<times> var) list \<Rightarrow> var list option" where
  "topo_sort 0 vs es = (if vs = [] then Some [] else None)"
| "topo_sort (Suc n) vs es =
     (if vs = [] then Some []
      else case filter (\<lambda>v. \<not> list_ex (\<lambda>e. snd e = v \<and> fst e \<in> set vs) es) vs of
             [] \<Rightarrow> None
           | r # _ \<Rightarrow> map_option ((#) r) (topo_sort n (removeAll r vs) es))"

definition cpt_scope_ok :: "Model \<Rightarrow> var \<times> Factor \<Rightarrow> bool" where
  "cpt_scope_ok m vf \<longleftrightarrow>
     well_formed (variables m) (snd vf) \<and>
     (case scope (snd vf) of
        [] \<Rightarrow> False
      | c # ps \<Rightarrow> c = fst vf \<and> set ps = set (parents m (fst vf)))"

text \<open>
  The sum over the child's states of a CPT, at the parent assignment \<open>pa\<close> (one state
  index per parent, in scope order).
\<close>

definition slice_sum :: "registry \<Rightarrow> Factor \<Rightarrow> nat list \<Rightarrow> rat" where
  "slice_sum reg f pa =
     sum_list (map (\<lambda>s. weights f ! flat_index (map (card_of reg) (scope f)) (s # pa))
                   [0..<card_of reg (hd (scope f))])"

definition tolerance :: rat where
  "tolerance = 1 / 1000000"

definition parent_assignments :: "registry \<Rightarrow> Factor \<Rightarrow> nat list list" where
  "parent_assignments reg f = assignments (map (card_of reg) (tl (scope f)))"

definition locally_normalized :: "registry \<Rightarrow> Factor \<Rightarrow> bool" where
  "locally_normalized reg f \<longleftrightarrow>
     list_all (\<lambda>pa. \<bar>slice_sum reg f pa - 1\<bar> \<le> tolerance) (parent_assignments reg f)"

fun first_unnormalized :: "registry \<Rightarrow> (var \<times> Factor) list \<Rightarrow> (var \<times> nat list) option" where
  "first_unnormalized reg [] = None"
| "first_unnormalized reg (vf # rest) =
     (case find (\<lambda>pa. \<not> \<bar>slice_sum reg (snd vf) pa - 1\<bar> \<le> tolerance)
                (parent_assignments reg (snd vf)) of
        Some pa \<Rightarrow> Some (fst vf, pa)
      | None \<Rightarrow> first_unnormalized reg rest)"

text \<open>
  \<open>validate\<close> seals a model. A record can hold any registry, so the checks that
  \<open>define_variable\<close> makes when a variable is declared are made again first; then
  follow the spec's four checks (a) to (d), in its order. Check (c) includes the factor
  invariants of the CPT.
\<close>

definition validate :: "Model \<Rightarrow> error + unit" where
  "validate m =
     (if \<not> distinct (var_names m) then Inl DuplicateVariableError
      else if \<not> list_all (\<lambda>vs. snd vs \<noteq> [] \<and> distinct (snd vs)) (variables m)
        then Inl InvalidStatesError
      else if topo_sort (length (var_names m)) (var_names m) (edges m) = None
        then Inl CyclicGraphError
      else if \<not> list_all (\<lambda>v. length (filter (\<lambda>vf. fst vf = v) (cpts m)) = 1) (var_names m)
        then Inl MissingCPDError
      else if \<not> list_all (cpt_scope_ok m) (cpts m)
        then Inl ScopeMismatchError
      else case first_unnormalized (variables m) (cpts m) of
             Some (v, pa) \<Rightarrow> Inl (UnnormalizedCPDError v pa)
           | None \<Rightarrow> Inr ())"

section \<open>Elimination ordering planner\<close>

text \<open>
  Modelled from the spec: the planner of section 4.4. The spec allows any order and names
  declaration order as the conforming baseline; that baseline is what is modelled.
\<close>

definition to_eliminate :: "Model \<Rightarrow> var list \<Rightarrow> (var \<times> state) list \<Rightarrow> var list" where
  "to_eliminate m targets ev =
     filter (\<lambda>v. v \<notin> set targets \<and> v \<notin> set (map fst ev)) (var_names m)"

definition plan_order :: "Model \<Rightarrow> var list \<Rightarrow> (var \<times> state) list \<Rightarrow> var list" where
  "plan_order m targets ev = to_eliminate m targets ev"

section \<open>Variable elimination engine\<close>

text \<open>
  Modelled from the spec: the query protocol of section 4.5, which the scripts reach
  through the library call \<open>VariableElimination(modelo).query\<close>.
\<close>

fun reduce_evidence :: "registry \<Rightarrow> (var \<times> state) list \<Rightarrow> Factor \<Rightarrow> error + Factor" where
  "reduce_evidence reg [] f = Inr f"
| "reduce_evidence reg (vs # ev) f =
     (if fst vs \<in> set (scope f)
      then case reduceByEvidence reg (fst vs) (snd vs) f of
             Inl e \<Rightarrow> Inl e
           | Inr g \<Rightarrow> reduce_evidence reg ev g
      else reduce_evidence reg ev f)"

fun reduce_each :: "registry \<Rightarrow> (var \<times> state) list \<Rightarrow> Factor list \<Rightarrow> error + Factor list" where
  "reduce_each reg ev [] = Inr []"
| "reduce_each reg ev (f # fs) =
     (case reduce_evidence reg ev f of
        Inl e \<Rightarrow> Inl e
      | Inr g \<Rightarrow> (case reduce_each reg ev fs of Inl e \<Rightarrow> Inl e | Inr gs \<Rightarrow> Inr (g # gs)))"

definition eliminate :: "registry \<Rightarrow> var \<Rightarrow> Factor list \<Rightarrow> error + Factor list" where
  "eliminate reg v fs =
     (case marginalize reg v (product_all reg (filter (\<lambda>f. v \<in> set (scope f)) fs)) of
        Inl e \<Rightarrow> Inl e
      | Inr g \<Rightarrow> Inr (filter (\<lambda>f. v \<notin> set (scope f)) fs @ [g]))"

fun eliminate_all :: "registry \<Rightarrow> var list \<Rightarrow> Factor list \<Rightarrow> error + Factor list" where
  "eliminate_all reg [] fs = Inr fs"
| "eliminate_all reg (v # vs) fs =
     (case eliminate reg v fs of Inl e \<Rightarrow> Inl e | Inr gs \<Rightarrow> eliminate_all reg vs gs)"

definition query_ok :: "Model \<Rightarrow> var list \<Rightarrow> (var \<times> state) list \<Rightarrow> bool" where
  "query_ok m targets ev \<longleftrightarrow>
     validate m = Inr () \<and> targets \<noteq> [] \<and>
     list_all (\<lambda>t. t \<in> set (var_names m)) targets \<and>
     list_all (\<lambda>vs. fst vs \<in> set (var_names m)) ev \<and>
     list_all (\<lambda>t. t \<notin> set (map fst ev)) targets"

definition engine :: "Model \<Rightarrow> var list \<Rightarrow> var list \<Rightarrow> (var \<times> state) list \<Rightarrow> error + Factor" where
  "engine m order targets ev =
     (if \<not> query_ok m targets ev then Inl InvalidQueryError
      else if \<not> (distinct order \<and> set order = set (to_eliminate m targets ev))
        then Inl InvalidQueryError
      else if \<not> list_all (\<lambda>vs. state_index (variables m) (fst vs) (snd vs) \<noteq> None) ev
        then Inl InvalidStateError
      else case reduce_each (variables m) ev (map snd (cpts m)) of
             Inl e \<Rightarrow> Inl e
           | Inr fs \<Rightarrow>
               (case eliminate_all (variables m) order fs of
                  Inl e \<Rightarrow> Inl e
                | Inr gs \<Rightarrow> normalize (product_all (variables m) gs)))"

definition query :: "Model \<Rightarrow> var list \<Rightarrow> (var \<times> state) list \<Rightarrow> error + Factor" where
  "query m targets ev = engine m (plan_order m targets ev) targets ev"

section \<open>The pgmpy script\<close>

text \<open>
  \<open>TabularCPD\<close> as the script calls it (its \<open>values\<close> argument is the field \<open>cpd_values\<close>): it has one row per state of the
  variable and one column per combination of the evidence (parent) states, the last
  evidence variable varying fastest.
\<close>

record TabularCPD =
  variable :: var
  variable_card :: nat
  cpd_values :: "rat list list"
  evidence :: "var list"
  evidence_card :: "nat list"
  state_names :: "(var \<times> state list) list"

record BayesianNetwork =
  bn_edges :: "(var \<times> var) list"
  bn_cpds :: "TabularCPD list"

definition cpd_pg :: TabularCPD where
  "cpd_pg = \<lparr>variable = ''PG'', variable_card = 3,
             cpd_values = [[0.3], [0.4], [0.3]],
             evidence = [], evidence_card = [],
             state_names = [(''PG'', [''Alta'', ''Media'', ''Baja''])]\<rparr>"

definition cpd_gripe :: TabularCPD where
  "cpd_gripe = \<lparr>variable = ''Gripe'', variable_card = 2,
                cpd_values = [[0.6, 0.4, 0.2],
                          [0.4, 0.6, 0.8]],
                evidence = [''PG''], evidence_card = [3],
                state_names = [(''Gripe'', [Si, No]), (''PG'', [''Alta'', ''Media'', ''Baja''])]\<rparr>"

definition cpd_neumonia :: TabularCPD where
  "cpd_neumonia = \<lparr>variable = ''Neumonia'', variable_card = 2,
                   cpd_values = [[0.7, 0.5, 0.3],
                             [0.3, 0.5, 0.7]],
                   evidence = [''PG''], evidence_card = [3],
                   state_names = [(''Neumonia'', [Si, No]), (''PG'', [''Alta'', ''Media'', ''Baja''])]\<rparr>"

definition cpd_fiebre :: TabularCPD where
  "cpd_fiebre = \<lparr>variable = ''Fiebre'', variable_card = 2,
                 cpd_values = [[0.9, 0.8, 0.7, 0.1],
                           [0.1, 0.2, 0.3, 0.9]],
                 evidence = [''Gripe'', ''Neumonia''], evidence_card = [2, 2],
                 state_names = [(''Fiebre'', [Si, No]), (''Gripe'', [Si, No]), (''Neumonia'', [Si, No])]\<rparr>"

definition cpd_tos :: TabularCPD where
  "cpd_tos = \<lparr>variable = ''Tos'', variable_card = 2,
              cpd_values = [[0.8, 0.2],
                        [0.2, 0.8]],
              evidence = [''Neumonia''], evidence_card = [2],
              state_names = [(''Tos'', [Si, No]), (''Neumonia'', [Si, No])]\<rparr>"

definition cpd_dolor :: TabularCPD where
  "cpd_dolor = \<lparr>variable = ''Dolor_cabeza'', variable_card = 2,
                cpd_values = [[0.7, 0.3],
                          [0.3, 0.7]],
                evidence = [''Gripe''], evidence_card = [2],
                state_names = [(''Dolor_cabeza'', [Si, No]), (''Gripe'', [Si, No])]\<rparr>"

text \<open>The nodes of a network built from an edge list, in order of first appearance.\<close>

definition add_node :: "var list \<Rightarrow> var \<Rightarrow> var list" where
  "add_node vs v = (if v \<in> set vs then vs else vs @ [v])"

definition nodes :: "BayesianNetwork \<Rightarrow> var list" where
  "nodes bn = foldl add_node [] (concat (map (\<lambda>e. [fst e, snd e]) (bn_edges bn)))"

definition add_cpds :: "BayesianNetwork \<Rightarrow> TabularCPD list \<Rightarrow> BayesianNetwork" where
  "add_cpds bn cs = bn\<lparr>bn_cpds := bn_cpds bn @ cs\<rparr>"

text \<open>The factor of a CPD: scope is the variable followed by its evidence, the rows laid end to end.\<close>

definition to_factor :: "TabularCPD \<Rightarrow> Factor" where
  "to_factor c = \<lparr>scope = variable c # evidence c, weights = concat (cpd_values c)\<rparr>"

definition states_for :: "BayesianNetwork \<Rightarrow> var \<Rightarrow> state list" where
  "states_for bn v =
     (case find (\<lambda>c. variable c = v) (bn_cpds bn) of
        None \<Rightarrow> []
      | Some c \<Rightarrow> (case map_of (state_names c) v of None \<Rightarrow> [] | Some sts \<Rightarrow> sts))"

definition to_model :: "BayesianNetwork \<Rightarrow> Model" where
  "to_model bn =
     \<lparr>variables = map (\<lambda>v. (v, states_for bn v)) (nodes bn),
      edges = bn_edges bn,
      cpts = map (\<lambda>c. (variable c, to_factor c)) (bn_cpds bn)\<rparr>"

text \<open>
  The shape checks of the table itself: the declared cardinalities and state names of a
  CPD agree with the network's, and the table has one row per state and one column
  per parent combination.
\<close>

definition cpd_shape_ok :: "BayesianNetwork \<Rightarrow> TabularCPD \<Rightarrow> bool" where
  "cpd_shape_ok bn c \<longleftrightarrow>
     list_all (\<lambda>vs. states_for bn (fst vs) = snd vs) (state_names c) \<and>
     variable_card c = length (states_for bn (variable c)) \<and>
     evidence_card c = map (\<lambda>v. length (states_for bn v)) (evidence c) \<and>
     length (cpd_values c) = variable_card c \<and>
     list_all (\<lambda>row. length row = prod_list (evidence_card c)) (cpd_values c)"

text \<open>
  Modelled from the spec: \<open>check_model\<close> is the library's validation; it is taken to be
  the spec's \<open>validate\<close> (section 4.3) after the shape checks.
\<close>

definition check_model :: "BayesianNetwork \<Rightarrow> error + unit" where
  "check_model bn =
     (if \<not> list_all (cpd_shape_ok bn) (bn_cpds bn) then Inl ValueError
      else validate (to_model bn))"

definition red_pgmpy :: BayesianNetwork where
  "red_pgmpy =
     add_cpds \<lparr>bn_edges = [(''PG'', ''Gripe''), (''PG'', ''Neumonia''), (''Gripe'', ''Fiebre''),
                           (''Neumonia'', ''Fiebre''), (''Neumonia'', ''Tos''),
                           (''Gripe'', ''Dolor_cabeza'')],
               bn_cpds = []\<rparr>
       [cpd_pg, cpd_gripe, cpd_neumonia, cpd_fiebre, cpd_tos, cpd_dolor]"

definition crear_red_pgmpy :: "error + BayesianNetwork" where
  "crear_red_pgmpy =
     (case check_model red_pgmpy of Inl e \<Rightarrow> Inl e | Inr _ \<Rightarrow> Inr red_pgmpy)"

text \<open>
  \<open>diagnosticar_pgmpy\<close>. The first loop walks the items of \<open>sintomas\<close>, copies the
  recognised names into \<open>evidencias\<close> and removes them from \<open>enfermedades\<close>;
  \<open>list.remove\<close> raises \<open>ValueError\<close> when the name is no longer there.
\<close>

definition recognised :: "var list" where
  "recognised = [''Fiebre'', ''Tos'', ''Dolor_cabeza'', ''Gripe'', ''Neumonia'', ''PG'']"

definition enfermedades0 :: "var list" where
  "enfermedades0 = [''PG'', ''Gripe'', ''Neumonia'', ''Tos'', ''Fiebre'', ''Dolor_cabeza'']"

fun recoger :: "(var \<times> state) list \<Rightarrow> (var \<times> state) list \<times> var list
                 \<Rightarrow> error + ((var \<times> state) list \<times> var list)" where
  "recoger [] acc = Inr acc"
| "recoger (nv # rest) acc =
     (if fst nv \<in> set recognised
      then if fst nv \<in> set (snd acc)
           then recoger rest (AList.update (fst nv) (snd nv) (fst acc), remove1 (fst nv) (snd acc))
           else Inl ValueError
      else recoger rest acc)"

text \<open>
  The two library calls of the function, \<open>VariableElimination(modelo)\<close> and
  \<open>infer.query(variables=[enf], evidence=evidencias)\<close>, are parameters of the
  embedding: \<open>crear_motor\<close> builds the inference object or raises, and
  \<open>consulta\<close> returns the \<open>values\<close> of the result or raises. The type of
  the values and the type of the library's exceptions are left open.

  The second loop: one query per remaining name, the first failure ends it.
\<close>

fun consultar_con :: "(var list \<Rightarrow> (var \<times> state) list \<Rightarrow> 'e + 'v) \<Rightarrow>
    (var \<times> state) list \<Rightarrow> var list \<Rightarrow> 'e + (var \<times> 'v) list" where
  "consultar_con consulta ev [] = Inr []"
| "consultar_con consulta ev (enf # rest) =
     (case consulta [enf] ev of
        Inl e \<Rightarrow> Inl e
      | Inr valores \<Rightarrow>
          (case consultar_con consulta ev rest of
             Inl e \<Rightarrow> Inl e
           | Inr diagnostico \<Rightarrow> Inr ((enf, valores) # diagnostico)))"

text \<open>
  The whole body runs inside \<open>try\<close>; \<open>except Exception\<close> prints the message and
  returns \<open>None\<close>, whatever was raised and wherever.
\<close>

definition diagnosticar_pgmpy_con ::
  "(BayesianNetwork \<Rightarrow> 'e + 'i) \<Rightarrow> ('i \<Rightarrow> var list \<Rightarrow> (var \<times> state) list \<Rightarrow> 'e + 'v) \<Rightarrow>
     BayesianNetwork \<Rightarrow> (var \<times> state) list \<Rightarrow> (var \<times> 'v) list option" where
  "diagnosticar_pgmpy_con crear_motor consulta modelo sintomas =
     (case recoger sintomas ([], enfermedades0) of
        Inl e \<Rightarrow> None
      | Inr (evidencias, enfermedades) \<Rightarrow>
          (case crear_motor modelo of
             Inl e \<Rightarrow> None
           | Inr infer \<Rightarrow>
               (case consultar_con (consulta infer) evidencias enfermedades of
                  Inl e \<Rightarrow> None
                | Inr diagnostico \<Rightarrow> Some diagnostico)))"

text \<open>
  Modelled from the spec: the library behind the two calls, taken to be the spec's engine.
  \<open>VariableElimination\<close> accepts a network that passes \<open>check_model\<close>, and
  the query is the spec's \<open>query\<close> (section 4.5), of which the script reads the
  \<open>values\<close>.
\<close>

definition VariableElimination :: "BayesianNetwork \<Rightarrow> error + Model" where
  "VariableElimination modelo =
     (case check_model modelo of Inl e \<Rightarrow> Inl e | Inr _ \<Rightarrow> Inr (to_model modelo))"

definition query_values :: "Model \<Rightarrow> var list \<Rightarrow> (var \<times> state) list \<Rightarrow> error + rat list" where
  "query_values m targets ev =
     (case query m targets ev of Inl e \<Rightarrow> Inl e | Inr resultado \<Rightarrow> Inr (weights resultado))"

definition consultar :: "Model \<Rightarrow> (var \<times> state) list \<Rightarrow> var list \<Rightarrow> error + (var \<times> rat list) list" where
  "consultar m = consultar_con (query_values m)"

definition diagnosticar_pgmpy :: "BayesianNetwork \<Rightarrow> (var \<times> state) list \<Rightarrow> (var \<times> rat list) list option" where
  "diagnosticar_pgmpy = diagnosticar_pgmpy_con VariableElimination query_values"

section \<open>The pomegranate script\<close>

text \<open>
  A \<open>DiscreteDistribution\<close> is the list of its (state, probability) items. A
  \<open>ConditionalProbabilityTable\<close> is its rows, each the parent states followed by the
  child state, with the probability; its parents are named here by the nodes that wrap the
  parent distributions.
\<close>

datatype distribution =
    DiscreteDistribution "(state \<times> rat) list"
  | ConditionalProbabilityTable "(state list \<times> rat) list" "var list"

record pom_network =
  pom_states :: "(var \<times> distribution) list"
  pom_edges :: "(var \<times> var) list"

definition pg :: distribution where
  "pg = DiscreteDistribution [(''Alta'', 0.3), (''Media'', 0.4), (''Baja'', 0.3)]"

definition gripe :: distribution where
  "gripe = ConditionalProbabilityTable
     [([''Alta'', Si], 0.6),
      ([''Alta'', No], 0.4),
      ([''Media'', Si], 0.4),
      ([''Media'', No], 0.6),
      ([''Baja'', Si], 0.2),
      ([''Baja'', No], 0.8)] [''PG'']"

definition neumonia :: distribution where
  "neumonia = ConditionalProbabilityTable
     [([''Alta'', Si], 0.7),
      ([''Alta'', No], 0.3),
      ([''Media'', Si], 0.5),
      ([''Media'', No], 0.5),
      ([''Baja'', Si], 0.3),
      ([''Baja'', No], 0.7)] [''PG'']"

definition fiebre :: distribution where
  "fiebre = ConditionalProbabilityTable
     [([Si, Si, Si], 0.9),
      ([Si, Si, No], 0.1),
      ([Si, No, Si], 0.8),
      ([Si, No, No], 0.2),
      ([No, Si, Si], 0.7),
      ([No, Si, No], 0.3),
      ([No, No, Si], 0.1),
      ([No, No, No], 0.9)] [''Gripe'', ''Neumonia'']"

definition tos :: distribution where
  "tos = ConditionalProbabilityTable
     [([Si, Si], 0.8),
      ([Si, No], 0.2),
      ([No, Si], 0.3),
      ([No, No], 0.7)] [''Neumonia'']"

definition dolor_cabeza :: distribution where
  "dolor_cabeza = ConditionalProbabilityTable
     [([Si, Si], 0.7),
      ([Si, No], 0.3),
      ([No, Si], 0.2),
      ([No, No], 0.8)] [''Gripe'']"

definition crear_red_bayesiana :: pom_network where
  "crear_red_bayesiana =
     \<lparr>pom_states = [(''PG'', pg), (''Gripe'', gripe), (''Neumonia'', neumonia),
                    (''Fiebre'', fiebre), (''Tos'', tos), (''Dolor_cabeza'', dolor_cabeza)],
      pom_edges = [(''PG'', ''Gripe''), (''PG'', ''Neumonia''), (''Gripe'', ''Fiebre''),
                   (''Neumonia'', ''Fiebre''), (''Neumonia'', ''Tos''),
                   (''Gripe'', ''Dolor_cabeza'')]\<rparr>"

text \<open>The weights of a distribution, flattened with its own rows in their order.\<close>

definition dist_weights :: "distribution \<Rightarrow> rat list" where
  "dist_weights d =
     (case d of DiscreteDistribution items \<Rightarrow> map snd items
              | ConditionalProbabilityTable rows ps \<Rightarrow> map snd rows)"

text \<open>The states of a node: the keys of a discrete distribution, the child column of a table.\<close>

definition dist_labels :: "distribution \<Rightarrow> state list" where
  "dist_labels d =
     (case d of DiscreteDistribution items \<Rightarrow> map fst items
              | ConditionalProbabilityTable rows ps \<Rightarrow> foldl add_node [] (map (last \<circ> fst) rows))"

definition pom_registry :: "pom_network \<Rightarrow> registry" where
  "pom_registry net = map (\<lambda>nd. (fst nd, dist_labels (snd nd))) (pom_states net)"

definition label_of :: "registry \<Rightarrow> var \<Rightarrow> nat \<Rightarrow> state" where
  "label_of reg v i = (case map_of reg v of None \<Rightarrow> [] | Some sts \<Rightarrow> if i < length sts then sts ! i else [])"

text \<open>
  The factor of a node: scope is the node followed by its parents, and the weight at an
  assignment is the probability of the row with these parent states and this child state.
  A missing row gives no factor.
\<close>

definition dist_factor :: "registry \<Rightarrow> var \<Rightarrow> distribution \<Rightarrow> Factor option" where
  "dist_factor reg name d =
     (case d of
        DiscreteDistribution items \<Rightarrow> Some \<lparr>scope = [name], weights = map snd items\<rparr>
      | ConditionalProbabilityTable rows ps \<Rightarrow>
          map_option (\<lambda>ws. \<lparr>scope = name # ps, weights = ws\<rparr>)
            (those (map (\<lambda>ss. case ss of
                                  [] \<Rightarrow> None
                                | s # pss \<Rightarrow> map_of rows (map2 (label_of reg) ps pss @ [label_of reg name s]))
                        (assignments (map (card_of reg) (name # ps))))))"

definition pom_model :: "pom_network \<Rightarrow> Model option" where
  "pom_model net =
     map_option (\<lambda>fs. \<lparr>variables = pom_registry net, edges = pom_edges net,
                        cpts = zip (map fst (pom_states net)) fs\<rparr>)
       (those (map (\<lambda>nd. dist_factor (pom_registry net) (fst nd) (snd nd)) (pom_states net)))"

text \<open>
  \<open>diagnosticar\<close> of the pomegranate script. \<open>predict_proba\<close> belongs to the
  library and is a parameter: given the evidence dictionary it returns one distribution
  per node, in node order, or raises. The three results read are those at positions 0, 1
  and 2; any exception gives \<open>None\<close>.
\<close>

fun preparar :: "(var \<times> state) list \<Rightarrow> (var \<rightharpoonup> state) \<Rightarrow> (var \<rightharpoonup> state)" where
  "preparar [] evidencias = evidencias"
| "preparar (nv # rest) evidencias =
     (if fst nv = ''Fiebre'' then preparar rest (evidencias(''Fiebre'' \<mapsto> snd nv))
      else if fst nv = ''Tos'' then preparar rest (evidencias(''Tos'' \<mapsto> snd nv))
      else if fst nv = ''Dolor_cabeza'' then preparar rest (evidencias(''Dolor_cabeza'' \<mapsto> snd nv))
      else preparar rest evidencias)"

definition diagnosticar ::
  "((var \<rightharpoonup> state) \<Rightarrow> error + 'd list) \<Rightarrow> (var \<times> state) list \<Rightarrow> (var \<times> 'd) list option" where
  "diagnosticar predict_proba sintomas =
     (case predict_proba (preparar sintomas Map.empty) of
        Inl e \<Rightarrow> None
      | Inr result \<Rightarrow>
          (if length result < 3 then None
           else Some [(''PG'', result ! 0), (''Gripe'', result ! 1), (''Neumonia'', result ! 2)]))"

section \<open>The PyMC script\<close>

text \<open>
  \<open>crear_modelo_bayesiano\<close>: a categorical prior and five Bernoulli variables whose
  parameter is a nested \<open>switch\<close> on the parents. A Bernoulli variable is 1 for the
  state written S-i-acute and 0 for \<open>No\<close>, and PG is 0, 1, 2 for Alta, Media, Baja.
\<close>

definition pg_probs :: "rat list" where
  "pg_probs = [0.3, 0.4, 0.3]"

definition p_gripe :: "nat \<Rightarrow> rat" where
  "p_gripe pgv = (if pgv = 0 then 0.6 else if pgv = 1 then 0.4 else 0.2)"

definition p_neumonia :: "nat \<Rightarrow> rat" where
  "p_neumonia pgv = (if pgv = 0 then 0.7 else if pgv = 1 then 0.5 else 0.3)"

definition p_fiebre :: "nat \<Rightarrow> nat \<Rightarrow> rat" where
  "p_fiebre g n =
     (if g = 1 \<and> n = 1 then 0.9
      else if g = 1 \<and> n = 0 then 0.8
      else if g = 0 \<and> n = 1 then 0.7
      else 0.1)"

definition p_tos :: "nat \<Rightarrow> rat" where
  "p_tos n = (if n = 1 then 0.8 else 0.3)"

definition p_dolor :: "nat \<Rightarrow> rat" where
  "p_dolor g = (if g = 1 then 0.7 else 0.2)"

definition Categorical :: "rat list \<Rightarrow> nat \<Rightarrow> rat" where
  "Categorical ps k = (if k < length ps then ps ! k else 0)"

definition Bernoulli :: "rat \<Rightarrow> nat \<Rightarrow> rat" where
  "Bernoulli p k = (if k = 1 then p else if k = 0 then 1 - p else 0)"

definition valores_posibles :: registry where
  "valores_posibles =
     [(''PG'', [''Alta'', ''Media'', ''Baja'']),
      (''Gripe'', [No, Si]),
      (''Neumonia'', [No, Si]),
      (''Fiebre'', [No, Si]),
      (''Tos'', [No, Si]),
      (''Dolor_cabeza'', [No, Si])]"

definition crear_modelo_bayesiano :: Model where
  "crear_modelo_bayesiano =
     \<lparr>variables = valores_posibles,
      edges = [(''PG'', ''Gripe''), (''PG'', ''Neumonia''), (''Gripe'', ''Fiebre''),
               (''Neumonia'', ''Fiebre''), (''Neumonia'', ''Tos''), (''Gripe'', ''Dolor_cabeza'')],
      cpts =
        [(''PG'', tabulate valores_posibles [''PG''] (\<lambda>a. Categorical pg_probs (a ''PG''))),
         (''Gripe'', tabulate valores_posibles [''Gripe'', ''PG'']
                      (\<lambda>a. Bernoulli (p_gripe (a ''PG'')) (a ''Gripe''))),
         (''Neumonia'', tabulate valores_posibles [''Neumonia'', ''PG'']
                      (\<lambda>a. Bernoulli (p_neumonia (a ''PG'')) (a ''Neumonia''))),
         (''Fiebre'', tabulate valores_posibles [''Fiebre'', ''Gripe'', ''Neumonia'']
                      (\<lambda>a. Bernoulli (p_fiebre (a ''Gripe'') (a ''Neumonia'')) (a ''Fiebre''))),
         (''Tos'', tabulate valores_posibles [''Tos'', ''Neumonia'']
                      (\<lambda>a. Bernoulli (p_tos (a ''Neumonia'')) (a ''Tos''))),
         (''Dolor_cabeza'', tabulate valores_posibles [''Dolor_cabeza'', ''Gripe'']
                      (\<lambda>a. Bernoulli (p_dolor (a ''Gripe'')) (a ''Dolor_cabeza'')))]\<rparr>"

section \<open>Reading a posterior by state label\<close>

definition posterior :: "Model \<Rightarrow> var \<Rightarrow> (var \<times> state) list \<Rightarrow> state \<Rightarrow> error + rat" where
  "posterior m x ev st =
     (case query m [x] ev of
        Inl e \<Rightarrow> Inl e
      | Inr f \<Rightarrow> (case state_index (variables m) x st of
                    None \<Rightarrow> Inl InvalidStateError
                  | Some i \<Rightarrow> if i < length (weights f) then Inr (weights f ! i) else Inl InvalidStateError))"

section \<open>Inputs of the scripts' test cases\<close>

definition caso_1 :: "(var \<times> state) list" where
  "caso_1 = [(''Fiebre'', Si), (''Tos'', Si), (''Dolor_cabeza'', No)]"

section \<open>Direct enumeration\<close>

text \<open>
  The independent oracle of the spec's section 8: the joint weight of a full assignment is
  the product of all CPT weights, and a posterior is obtained by summing the joint weight
  over every variable that is neither observed nor queried, then dividing by the total
  over all unobserved variables.
\<close>

definition joint_weight :: "registry \<Rightarrow> Factor list \<Rightarrow> assignment \<Rightarrow> rat" where
  "joint_weight reg fs a = prod_list (map (\<lambda>f. weight_at reg f a) fs)"

definition joint :: "Model \<Rightarrow> assignment \<Rightarrow> rat" where
  "joint m a = joint_weight (variables m) (map snd (cpts m)) a"

text \<open>
  All assignments that give the variables in \<open>V\<close> a state index within their
  cardinality and agree with \<open>a\<close> elsewhere.
\<close>

definition extensions :: "registry \<Rightarrow> var set \<Rightarrow> assignment \<Rightarrow> assignment set" where
  "extensions reg V a = {b. \<forall>v. if v \<in> V then b v < card_of reg v else b v = a v}"

text \<open>An assignment with the observed variables set to their observed states.\<close>

definition observe :: "registry \<Rightarrow> (var \<times> state) list \<Rightarrow> assignment \<Rightarrow> assignment" where
  "observe reg ev a =
     (\<lambda>v. case map_of ev v of
            None \<Rightarrow> a v
          | Some st \<Rightarrow> (case state_index reg v st of None \<Rightarrow> 0 | Some s \<Rightarrow> s))"

text \<open>An assignment with the variables \<open>vs\<close> set to the indices \<open>ss\<close>.\<close>

definition override :: "assignment \<Rightarrow> var list \<Rightarrow> nat list \<Rightarrow> assignment" where
  "override a vs ss = (\<lambda>v. case map_of (zip vs ss) v of None \<Rightarrow> a v | Some s \<Rightarrow> s)"

definition sum_over :: "registry \<Rightarrow> var list \<Rightarrow> (assignment \<Rightarrow> rat) \<Rightarrow> assignment \<Rightarrow> rat" where
  "sum_over reg vs G a =
     sum_list (map (\<lambda>ss. G (override a vs ss)) (assignments (map (card_of reg) vs)))"

definition unobserved :: "Model \<Rightarrow> (var \<times> state) list \<Rightarrow> var list" where
  "unobserved m ev = filter (\<lambda>v. v \<notin> set (map fst ev)) (var_names m)"

definition evidence_mass :: "Model \<Rightarrow> (var \<times> state) list \<Rightarrow> rat" where
  "evidence_mass m ev =
     sum_over (variables m) (unobserved m ev) (\<lambda>b. joint m (observe (variables m) ev b)) (\<lambda>v. 0)"

definition enumerate :: "Model \<Rightarrow> var list \<Rightarrow> (var \<times> state) list \<Rightarrow> error + Factor" where
  "enumerate m targets ev =
     (if evidence_mass m ev = 0 then Inl DegenerateFactorError
      else Inr (tabulate (variables m) targets
                  (\<lambda>a. sum_over (variables m) (to_eliminate m targets ev)
                              (\<lambda>b. joint m (observe (variables m) ev b)) a
                       / evidence_mass m ev)))"

section \<open>Comparing query results\<close>

text \<open>
  Two factors are the same distribution when they have the same variables and the same
  weight at every assignment of these variables; the order of the axes may differ.
\<close>

definition same_distribution :: "registry \<Rightarrow> Factor \<Rightarrow> Factor \<Rightarrow> bool" where
  "same_distribution reg f g \<longleftrightarrow>
     set (scope f) = set (scope g) \<and>
     list_all (\<lambda>ss. weight_at reg f (asg_of (scope f) ss) = weight_at reg g (asg_of (scope f) ss))
              (assignments (map (card_of reg) (scope f)))"

fun same_result :: "registry \<Rightarrow> error + Factor \<Rightarrow> error + Factor \<Rightarrow> bool" where
  "same_result reg (Inl e) (Inl e') = (e = e')"
| "same_result reg (Inr f) (Inr g) = same_distribution reg f g"
| "same_result reg _ _ = False"

definition valid_evidence :: "Model \<Rightarrow> (var \<times> state) list \<Rightarrow> bool" where
  "valid_evidence m ev \<longleftrightarrow>
     list_all (\<lambda>vs. state_index (variables m) (fst vs) (snd vs) \<noteq> None) ev"

section \<open>Local normalisation of the scripts' tables\<close>

text \<open>For a \<open>TabularCPD\<close>: the sum of each column, one per parent combination.\<close>

definition column_sums :: "TabularCPD \<Rightarrow> rat list" where
  "column_sums c = map sum_list (transpose (cpd_values c))"

text \<open>
  For a pomegranate distribution: the sum of the probabilities of the rows that share
  their parent states, one sum per combination of parent states.
\<close>

definition parent_sums :: "distribution \<Rightarrow> rat list" where
  "parent_sums d =
     (case d of
        DiscreteDistribution items \<Rightarrow> [sum_list (map snd items)]
      | ConditionalProbabilityTable rows ps \<Rightarrow>
          map (\<lambda>key. sum_list (map snd (filter (\<lambda>r. butlast (fst r) = key) rows)))
              (remdups (map (butlast \<circ> fst) rows)))"

section \<open>Further inputs\<close>

text \<open>The second test case of the pgmpy script.\<close>

definition caso_2 :: "(var \<times> state) list" where
  "caso_2 = [(''Tos'', Si), (''Gripe'', Si)]"

text \<open>
  Symptom dictionaries as the interactive mode of the scripts builds them: only the three
  symptoms, each answered with one of the two state labels.
\<close>

definition sintomas_validos :: "(var \<times> state) list \<Rightarrow> bool" where
  "sintomas_validos s \<longleftrightarrow>
     list_all (\<lambda>nv. fst nv \<in> set [''Fiebre'', ''Tos'', ''Dolor_cabeza''] \<and> snd nv \<in> set [Si, No]) s"

text \<open>
  A network that \<open>diagnosticar_pgmpy\<close> can be given and that has an impossible
  observation: the network of the script with a cough table that makes the cough certain,
  so that observing no cough has probability zero.
\<close>

definition cpd_tos_segura :: TabularCPD where
  "cpd_tos_segura = \<lparr>variable = ''Tos'', variable_card = 2,
                     cpd_values = [[1, 1],
                                   [0, 0]],
                     evidence = [''Neumonia''], evidence_card = [2],
                     state_names = [(''Tos'', [Si, No]), (''Neumonia'', [Si, No])]\<rparr>"

definition red_tos_segura :: BayesianNetwork where
  "red_tos_segura =
     add_cpds \<lparr>bn_edges = [(''PG'', ''Gripe''), (''PG'', ''Neumonia''), (''Gripe'', ''Fiebre''),
                           (''Neumonia'', ''Fiebre''), (''Neumonia'', ''Tos''),
                           (''Gripe'', ''Dolor_cabeza'')],
               bn_cpds = []\<rparr>
       [cpd_pg, cpd_gripe, cpd_neumonia, cpd_fiebre, cpd_tos_segura, cpd_dolor]"

text \<open>
  Stand-ins for the library behind \<open>diagnosticar_pgmpy\<close>: an inference object
  that is the network itself, a query that always raises
  \<open>DegenerateFactorError\<close>, and a query that never raises and returns an array of
  two not-a-number entries, written as strings.
\<close>

definition motor_directo :: "BayesianNetwork \<Rightarrow> error + BayesianNetwork" where
  "motor_directo modelo = Inr modelo"

definition consulta_falla :: "BayesianNetwork \<Rightarrow> var list \<Rightarrow> (var \<times> state) list \<Rightarrow> error + string list" where
  "consulta_falla infer targets ev = Inl DegenerateFactorError"

definition consulta_nan :: "BayesianNetwork \<Rightarrow> var list \<Rightarrow> (var \<times> state) list \<Rightarrow> error + string list" where
  "consulta_nan infer targets ev = Inr [''nan'', ''nan'']"

text \<open>
  A stand-in for \<open>predict_proba\<close> that hands back what it was told about three
  names, so that a forwarded key would show in the result.
\<close>

definition predict_proba_eco :: "(var \<rightharpoonup> state) \<Rightarrow> error + state option list" where
  "predict_proba_eco evidencias = Inr [evidencias ''Fiebre'', evidencias ''Gripe'', evidencias ''Edad'']"

section \<open>Dense arrays\<close>

lemma length_assignments: "length (assignments cs) = prod_list cs"
  by (induction cs) (simp_all add: length_concat o_def sum_list_triv)

lemma concat_nth_block:
  assumes "\<forall>x\<in>set xs. length (g x) = P" and "i < length xs" and "k < P"
  shows "concat (map g xs) ! (i * P + k) = g (xs ! i) ! k"
  using assms
proof (induction xs arbitrary: i)
  case Nil
  then show ?case by simp
next
  case (Cons x xs)
  show ?case
  proof (cases i)
    case 0
    with Cons.prems show ?thesis by (simp add: nth_append)
  next
    case (Suc j)
    have len: "length (g x) = P" using Cons.prems(1) by simp
    have "concat (map g (x # xs)) ! (i * P + k) = concat (map g xs) ! (j * P + k)"
      using Suc len by (simp add: nth_append)
    also have "\<dots> = g (xs ! j) ! k"
      using Cons.IH [of j] Cons.prems Suc by simp
    finally show ?thesis using Suc by simp
  qed
qed

lemma assignments_nth:
  "list_all2 (<) ss cs \<Longrightarrow>
     flat_index cs ss < prod_list cs \<and> assignments cs ! flat_index cs ss = ss"
proof (induction cs arbitrary: ss)
  case Nil
  then show ?case by simp
next
  case (Cons c cs)
  then obtain s ss' where ss: "ss = s # ss'" and s: "s < c" and rest: "list_all2 (<) ss' cs"
    by (auto simp: list_all2_Cons2)
  let ?P = "prod_list cs"
  let ?k = "flat_index cs ss'"
  have k: "?k < ?P" and at: "assignments cs ! ?k = ss'"
    using Cons.IH [OF rest] by simp_all
  have "s * ?P + ?k < Suc s * ?P" using k by simp
  also have "\<dots> \<le> c * ?P" using s by (intro mult_le_mono1) simp
  finally have bound: "s * ?P + ?k < c * ?P" .
  have "assignments (c # cs) ! (s * ?P + ?k) = map ((#) s) (assignments cs) ! ?k"
    using concat_nth_block [of "[0..<c]" "\<lambda>s. map ((#) s) (assignments cs)" ?P s ?k] s k
    by (simp add: length_assignments)
  also have "\<dots> = s # ss'"
    using k at by (simp add: length_assignments)
  finally show ?case using bound ss by simp
qed

lemma set_assignments: "ss \<in> set (assignments cs) \<longleftrightarrow> list_all2 (<) ss cs"
proof (induction cs arbitrary: ss)
  case Nil
  then show ?case by auto
next
  case (Cons c cs)
  show ?case
  proof (cases ss)
    case Nil
    then show ?thesis by auto
  next
    case (Cons s ss')
    have "ss \<in> set (assignments (c # cs)) \<longleftrightarrow> s < c \<and> ss' \<in> set (assignments cs)"
      using Cons by auto
    then show ?thesis using Cons Cons.IH by simp
  qed
qed

lemma asg_of_map: "asg_of sc (map a sc) v = (if v \<in> set sc then a v else 0)"
  by (simp add: asg_of_def map_of_zip_map)

lemma weight_at_cong:
  "(\<And>v. v \<in> set (scope f) \<Longrightarrow> a v = b v) \<Longrightarrow> weight_at reg f a = weight_at reg f b"
  unfolding weight_at_def by (metis (no_types, lifting) map_eq_conv)

lemma weight_at_tabulate:
  assumes "\<And>v. v \<in> set sc \<Longrightarrow> a v < card_of reg v"
  shows "weight_at reg (tabulate reg sc F) a = F (asg_of sc (map a sc))"
proof -
  let ?cs = "map (card_of reg) sc"
  have ok: "list_all2 (<) (map a sc) ?cs"
    using assms by (simp add: list_all2_map1 list_all2_map2 list_all2_same)
  from assignments_nth [OF ok]
  show ?thesis
    by (simp add: weight_at_def tabulate_def length_assignments)
qed

section \<open>The factor operations, pointwise\<close>

lemma scope_tabulate [simp]: "scope (tabulate reg sc F) = sc"
  by (simp add: tabulate_def)

lemma weights_tabulate:
  "weights (tabulate reg sc F) = map (\<lambda>ss. F (asg_of sc ss)) (assignments (map (card_of reg) sc))"
  by (simp add: tabulate_def)

lemma scope_product: "scope (product reg f g) = scope f @ filter (\<lambda>v. v \<notin> set (scope f)) (scope g)"
  by (simp add: product_def)

lemma set_scope_product: "set (scope (product reg f g)) = set (scope f) \<union> set (scope g)"
  by (auto simp: scope_product)

lemma distinct_scope_product:
  "distinct (scope f) \<Longrightarrow> distinct (scope g) \<Longrightarrow> distinct (scope (product reg f g))"
  by (auto simp: scope_product)

lemma weight_at_product:
  assumes "\<And>v. v \<in> set (scope f) \<union> set (scope g) \<Longrightarrow> a v < card_of reg v"
  shows "weight_at reg (product reg f g) a = weight_at reg f a * weight_at reg g a"
proof -
  let ?sc = "scope f @ filter (\<lambda>v. v \<notin> set (scope f)) (scope g)"
  let ?a' = "asg_of ?sc (map a ?sc)"
  have v: "\<And>v. v \<in> set ?sc \<Longrightarrow> a v < card_of reg v" using assms by auto
  have "weight_at reg (product reg f g) a = weight_at reg f ?a' * weight_at reg g ?a'"
    unfolding product_def using weight_at_tabulate [of ?sc a reg] v by simp
  moreover have a': "?a' u = (if u \<in> set ?sc then a u else 0)" for u
    by (rule asg_of_map)
  moreover have "weight_at reg f ?a' = weight_at reg f a"
    by (rule weight_at_cong) (simp only: a', simp)
  moreover have "weight_at reg g ?a' = weight_at reg g a"
    by (rule weight_at_cong) (simp only: a', simp)
  ultimately show ?thesis by simp
qed

lemma marginalize_Inr:
  "marginalize reg v f = Inr g \<Longrightarrow> v \<in> set (scope f) \<and> scope g = filter (\<lambda>u. u \<noteq> v) (scope f)"
  by (auto simp: marginalize_def split: if_splits)

lemma weight_at_marginalize:
  assumes "marginalize reg v f = Inr g"
      and "\<And>u. u \<in> set (scope f) \<Longrightarrow> u \<noteq> v \<Longrightarrow> a u < card_of reg u"
  shows "weight_at reg g a = (\<Sum>s\<leftarrow>[0..<card_of reg v]. weight_at reg f (a(v := s)))"
proof -
  let ?sc = "filter (\<lambda>u. u \<noteq> v) (scope f)"
  let ?a' = "asg_of ?sc (map a ?sc)"
  have g: "g = tabulate reg ?sc (\<lambda>a. \<Sum>s\<leftarrow>[0..<card_of reg v]. weight_at reg f (a(v := s)))"
    using assms(1) by (auto simp: marginalize_def split: if_splits)
  have "weight_at reg g a = (\<Sum>s\<leftarrow>[0..<card_of reg v]. weight_at reg f (?a'(v := s)))"
    unfolding g using weight_at_tabulate [of ?sc a reg] assms(2) by simp
  moreover have "weight_at reg f (?a'(v := s)) = weight_at reg f (a(v := s))" for s
    by (rule weight_at_cong) (simp add: asg_of_map)
  ultimately show ?thesis by simp
qed

lemma reduceByEvidence_Inr:
  "reduceByEvidence reg v st f = Inr g \<Longrightarrow>
     v \<in> set (scope f) \<and> scope g = filter (\<lambda>u. u \<noteq> v) (scope f) \<and>
     (\<exists>s. state_index reg v st = Some s)"
  by (auto simp: reduceByEvidence_def split: if_splits option.splits)

lemma weight_at_reduceByEvidence:
  assumes "reduceByEvidence reg v st f = Inr g"
      and "state_index reg v st = Some s"
      and "\<And>u. u \<in> set (scope f) \<Longrightarrow> u \<noteq> v \<Longrightarrow> a u < card_of reg u"
  shows "weight_at reg g a = weight_at reg f (a(v := s))"
proof -
  let ?sc = "filter (\<lambda>u. u \<noteq> v) (scope f)"
  let ?a' = "asg_of ?sc (map a ?sc)"
  have g: "g = tabulate reg ?sc (\<lambda>a. weight_at reg f (a(v := s)))"
    using assms(1,2) by (auto simp: reduceByEvidence_def split: if_splits)
  have "weight_at reg g a = weight_at reg f (?a'(v := s))"
    unfolding g using weight_at_tabulate [of ?sc a reg] assms(3) by simp
  moreover have "weight_at reg f (?a'(v := s)) = weight_at reg f (a(v := s))"
    by (rule weight_at_cong) (simp add: asg_of_map)
  ultimately show ?thesis by simp
qed

lemma index_in_less: "index_in xs x = Some i \<Longrightarrow> i < length xs \<and> xs ! i = x"
  by (induction xs arbitrary: i) (auto split: if_splits)

lemma state_index_less: "state_index reg v st = Some s \<Longrightarrow> s < card_of reg v"
  by (auto simp: state_index_def card_of_def split: option.splits dest: index_in_less)

section \<open>Products of lists of factors\<close>

lemma joint_weight_Nil [simp]: "joint_weight reg [] a = 1"
  by (simp add: joint_weight_def)

lemma joint_weight_Cons [simp]:
  "joint_weight reg (f # fs) a = weight_at reg f a * joint_weight reg fs a"
  by (simp add: joint_weight_def)

lemma joint_weight_append [simp]:
  "joint_weight reg (fs @ gs) a = joint_weight reg fs a * joint_weight reg gs a"
  by (simp add: joint_weight_def)

lemma joint_weight_cong:
  "(\<And>v. v \<in> (\<Union>f\<in>set fs. set (scope f)) \<Longrightarrow> a v = b v) \<Longrightarrow>
     joint_weight reg fs a = joint_weight reg fs b"
proof (induction fs)
  case Nil
  then show ?case by simp
next
  case (Cons f fs)
  have "weight_at reg f a = weight_at reg f b"
    by (rule weight_at_cong) (simp add: Cons.prems)
  moreover have "joint_weight reg fs a = joint_weight reg fs b"
    by (rule Cons.IH) (simp add: Cons.prems)
  ultimately show ?case by simp
qed

lemma joint_weight_partition:
  "joint_weight reg fs a =
     joint_weight reg (filter P fs) a * joint_weight reg (filter (\<lambda>f. \<not> P f) fs) a"
  by (induction fs) simp_all

lemma weight_at_unit [simp]: "weight_at reg unit_factor a = 1"
  by (simp add: weight_at_def unit_factor_def)

lemma set_scope_product_all:
  "set (scope (product_all reg fs)) = (\<Union>f\<in>set fs. set (scope f))"
  by (induction fs) (simp_all add: product_all_def unit_factor_def set_scope_product)

lemma distinct_scope_product_all:
  "(\<And>f. f \<in> set fs \<Longrightarrow> distinct (scope f)) \<Longrightarrow> distinct (scope (product_all reg fs))"
  by (induction fs) (simp_all add: product_all_def unit_factor_def distinct_scope_product)

lemma weight_at_product_all:
  "(\<And>v. v \<in> (\<Union>f\<in>set fs. set (scope f)) \<Longrightarrow> a v < card_of reg v) \<Longrightarrow>
     weight_at reg (product_all reg fs) a = joint_weight reg fs a"
proof (induction fs)
  case Nil
  then show ?case by (simp add: product_all_def)
next
  case (Cons f fs)
  have "weight_at reg (product reg f (product_all reg fs)) a =
          weight_at reg f a * weight_at reg (product_all reg fs) a"
    by (rule weight_at_product) (use Cons.prems in \<open>auto simp: set_scope_product_all\<close>)
  moreover have "weight_at reg (product_all reg fs) a = joint_weight reg fs a"
    by (rule Cons.IH) (simp add: Cons.prems)
  ultimately show ?case by (simp add: product_all_def)
qed

section \<open>Sums over extensions of an assignment\<close>

lemma extensions_empty [simp]: "extensions reg {} a = {a}"
  by (auto simp: extensions_def)

lemma sum_list_upt_sum: "(\<Sum>s\<leftarrow>[0..<c]. (h s :: rat)) = (\<Sum>s\<in>{..<c}. h s)"
  by (simp add: interv_sum_list_conv_sum_set_nat atLeast0LessThan)

lemma extensions_insert_sum:
  fixes G :: "assignment \<Rightarrow> rat"
  assumes "v \<notin> V"
  shows "(\<Sum>b\<in>extensions reg V a. \<Sum>s\<in>{..<card_of reg v}. G (b(v := s))) =
         (\<Sum>b\<in>extensions reg (insert v V) a. G b)"
proof -
  have "(\<Sum>b\<in>extensions reg V a. \<Sum>s\<in>{..<card_of reg v}. G (b(v := s))) =
        (\<Sum>p\<in>extensions reg V a \<times> {..<card_of reg v}. G ((fst p)(v := snd p)))"
    by (simp add: sum.cartesian_product case_prod_beta)
  also have "\<dots> = (\<Sum>b\<in>extensions reg (insert v V) a. G b)"
  proof (rule sum.reindex_bij_witness [where i = "\<lambda>b. (b(v := a v), b v)"
                                         and j = "\<lambda>p. (fst p)(v := snd p)"], goal_cases)
    case (1 p)
    then have b: "fst p \<in> extensions reg V a" by auto
    from b assms have "fst p v = a v" by (simp add: extensions_def)
    then have "(fst p)(v := a v) = fst p" by auto
    then show ?case by (simp add: prod_eq_iff)
  next
    case (2 p)
    then show ?case by (auto simp: extensions_def)
  next
    case (3 b)
    show ?case by auto
  next
    case (4 b)
    then show ?case using assms by (auto simp: extensions_def split: if_splits)
  next
    case (5 b)
    show ?case by simp
  qed
  finally show ?thesis .
qed

lemma sum_list_concat_rat: "sum_list (concat xss) = (\<Sum>xs\<leftarrow>xss. sum_list (xs :: rat list))"
  by (induction xss) simp_all

lemma override_Cons: "override a (v # vs) (s # ss) = (override a vs ss)(v := s)"
  by (auto simp: override_def)

lemma override_Nil [simp]: "override a [] ss = a"
  by (simp add: override_def)

lemma sum_over_extensions:
  fixes G :: "assignment \<Rightarrow> rat"
  shows "distinct vs \<Longrightarrow> sum_over reg vs G a = (\<Sum>b\<in>extensions reg (set vs) a. G b)"
proof (induction vs arbitrary: G)
  case Nil
  then show ?case by (simp add: sum_over_def)
next
  case (Cons v vs)
  let ?c = "card_of reg v"
  have "sum_over reg (v # vs) G a =
          (\<Sum>s\<leftarrow>[0..<?c]. sum_over reg vs (\<lambda>b. G (b(v := s))) a)"
    by (simp add: sum_over_def map_concat sum_list_concat_rat override_Cons o_def)
  also have "\<dots> = (\<Sum>s\<in>{..<?c}. \<Sum>b\<in>extensions reg (set vs) a. G (b(v := s)))"
    using Cons by (simp add: sum_list_upt_sum)
  also have "\<dots> = (\<Sum>b\<in>extensions reg (set vs) a. \<Sum>s\<in>{..<?c}. G (b(v := s)))"
    by (rule sum.swap)
  also have "\<dots> = (\<Sum>b\<in>extensions reg (insert v (set vs)) a. G b)"
    using Cons.prems by (intro extensions_insert_sum) simp
  finally show ?case by simp
qed

section \<open>Eliminating a variable\<close>

lemma eliminate_Inr:
  assumes "eliminate reg v fs = Inr gs"
  shows "\<exists>g. marginalize reg v (product_all reg (filter (\<lambda>f. v \<in> set (scope f)) fs)) = Inr g \<and>
             gs = filter (\<lambda>f. v \<notin> set (scope f)) fs @ [g]"
  using assms by (auto simp: eliminate_def split: sum.splits)

lemma eliminate_scopes:
  assumes "eliminate reg v fs = Inr gs"
  shows "(\<Union>g\<in>set gs. set (scope g)) = (\<Union>f\<in>set fs. set (scope f)) - {v}"
proof -
  from eliminate_Inr [OF assms] obtain g where
    g: "marginalize reg v (product_all reg (filter (\<lambda>f. v \<in> set (scope f)) fs)) = Inr g"
    and gs: "gs = filter (\<lambda>f. v \<notin> set (scope f)) fs @ [g]" by blast
  have "set (scope g) = (\<Union>f\<in>set (filter (\<lambda>f. v \<in> set (scope f)) fs). set (scope f)) - {v}"
    using marginalize_Inr [OF g] by (auto simp: set_scope_product_all)
  then show ?thesis unfolding gs by auto
qed

lemma eliminate_distinct:
  assumes "eliminate reg v fs = Inr gs" and "\<And>f. f \<in> set fs \<Longrightarrow> distinct (scope f)"
  shows "\<And>g. g \<in> set gs \<Longrightarrow> distinct (scope g)"
proof -
  from eliminate_Inr [OF assms(1)] obtain g where
    g: "marginalize reg v (product_all reg (filter (\<lambda>f. v \<in> set (scope f)) fs)) = Inr g"
    and gs: "gs = filter (\<lambda>f. v \<notin> set (scope f)) fs @ [g]" by blast
  have "distinct (scope (product_all reg (filter (\<lambda>f. v \<in> set (scope f)) fs)))"
    by (rule distinct_scope_product_all) (simp add: assms(2))
  then have "distinct (scope g)" using marginalize_Inr [OF g] by simp
  then show "\<And>h. h \<in> set gs \<Longrightarrow> distinct (scope h)" unfolding gs using assms(2) by auto
qed

lemma joint_weight_eliminate:
  assumes "eliminate reg v fs = Inr gs"
      and "\<And>u. u \<in> (\<Union>f\<in>set fs. set (scope f)) \<Longrightarrow> u \<noteq> v \<Longrightarrow> a u < card_of reg u"
  shows "joint_weight reg gs a = (\<Sum>s\<in>{..<card_of reg v}. joint_weight reg fs (a(v := s)))"
proof -
  let ?rel = "filter (\<lambda>f. v \<in> set (scope f)) fs"
  let ?rest = "filter (\<lambda>f. v \<notin> set (scope f)) fs"
  from eliminate_Inr [OF assms(1)] obtain g where
    g: "marginalize reg v (product_all reg ?rel) = Inr g" and gs: "gs = ?rest @ [g]" by blast
  have "weight_at reg g a = (\<Sum>s\<leftarrow>[0..<card_of reg v]. weight_at reg (product_all reg ?rel) (a(v := s)))"
    by (rule weight_at_marginalize [OF g]) (use assms(2) in \<open>auto simp: set_scope_product_all\<close>)
  also have "\<dots> = (\<Sum>s\<in>{..<card_of reg v}. weight_at reg (product_all reg ?rel) (a(v := s)))"
    by (rule sum_list_upt_sum)
  also have "\<dots> = (\<Sum>s\<in>{..<card_of reg v}. joint_weight reg ?rel (a(v := s)))"
  proof (rule sum.cong [OF refl])
    fix s assume "s \<in> {..<card_of reg v}"
    then show "weight_at reg (product_all reg ?rel) (a(v := s)) = joint_weight reg ?rel (a(v := s))"
      by (intro weight_at_product_all) (use assms(2) in auto)
  qed
  finally have wg: "weight_at reg g a = (\<Sum>s\<in>{..<card_of reg v}. joint_weight reg ?rel (a(v := s)))" .
  have rest: "joint_weight reg ?rest (a(v := s)) = joint_weight reg ?rest a" for s
    by (rule joint_weight_cong) auto
  have "joint_weight reg gs a = joint_weight reg ?rest a * weight_at reg g a"
    by (simp add: gs)
  also have "\<dots> = (\<Sum>s\<in>{..<card_of reg v}. joint_weight reg ?rest (a(v := s)) * joint_weight reg ?rel (a(v := s)))"
    by (simp add: wg rest sum_distrib_left)
  also have "\<dots> = (\<Sum>s\<in>{..<card_of reg v}. joint_weight reg fs (a(v := s)))"
    by (rule sum.cong [OF refl])
       (simp add: joint_weight_partition [of reg fs _ "\<lambda>f. v \<in> set (scope f)"] mult.commute)
  finally show ?thesis .
qed

lemma eliminate_all_scopes:
  "eliminate_all reg vs fs = Inr gs \<Longrightarrow>
     (\<Union>g\<in>set gs. set (scope g)) = (\<Union>f\<in>set fs. set (scope f)) - set vs"
proof (induction vs arbitrary: fs)
  case Nil
  then show ?case by simp
next
  case (Cons v vs)
  then obtain hs where hs: "eliminate reg v fs = Inr hs" and gs: "eliminate_all reg vs hs = Inr gs"
    by (auto split: sum.splits)
  show ?case using Cons.IH [OF gs] eliminate_scopes [OF hs] by auto
qed

lemma eliminate_all_distinct:
  "eliminate_all reg vs fs = Inr gs \<Longrightarrow> (\<And>f. f \<in> set fs \<Longrightarrow> distinct (scope f)) \<Longrightarrow>
     g \<in> set gs \<Longrightarrow> distinct (scope g)"
proof (induction vs arbitrary: fs)
  case Nil
  then show ?case by simp
next
  case (Cons v vs)
  then obtain hs where hs: "eliminate reg v fs = Inr hs" and gs: "eliminate_all reg vs hs = Inr gs"
    by (auto split: sum.splits)
  show ?case
    by (rule Cons.IH [OF gs _ Cons.prems(3)]) (rule eliminate_distinct [OF hs Cons.prems(2)])
qed

lemma joint_weight_eliminate_all:
  "eliminate_all reg vs fs = Inr gs \<Longrightarrow> distinct vs \<Longrightarrow>
     (\<And>u. u \<in> (\<Union>f\<in>set fs. set (scope f)) \<Longrightarrow> u \<notin> set vs \<Longrightarrow> a u < card_of reg u) \<Longrightarrow>
     joint_weight reg gs a = (\<Sum>b\<in>extensions reg (set vs) a. joint_weight reg fs b)"
proof (induction vs arbitrary: fs)
  case Nil
  then show ?case by simp
next
  case (Cons v vs)
  then obtain hs where hs: "eliminate reg v fs = Inr hs" and gs: "eliminate_all reg vs hs = Inr gs"
    by (auto split: sum.splits)
  have "joint_weight reg gs a = (\<Sum>b\<in>extensions reg (set vs) a. joint_weight reg hs b)"
    by (rule Cons.IH [OF gs])
       (use Cons.prems in \<open>auto simp: eliminate_scopes [OF hs]\<close>)
  also have "\<dots> = (\<Sum>b\<in>extensions reg (set vs) a.
                      \<Sum>s\<in>{..<card_of reg v}. joint_weight reg fs (b(v := s)))"
  proof (rule sum.cong [OF refl])
    fix b assume b: "b \<in> extensions reg (set vs) a"
    show "joint_weight reg hs b = (\<Sum>s\<in>{..<card_of reg v}. joint_weight reg fs (b(v := s)))"
    proof (rule joint_weight_eliminate [OF hs])
      fix u assume u: "u \<in> (\<Union>f\<in>set fs. set (scope f))" "u \<noteq> v"
      show "b u < card_of reg u"
      proof (cases "u \<in> set vs")
        case True
        with b show ?thesis by (simp add: extensions_def)
      next
        case False
        with b have "b u = a u" by (simp add: extensions_def)
        with Cons.prems(3) [OF u(1)] u(2) False show ?thesis by simp
      qed
    qed
  qed
  also have "\<dots> = (\<Sum>b\<in>extensions reg (insert v (set vs)) a. joint_weight reg fs b)"
    using Cons.prems(2) by (intro extensions_insert_sum) simp
  finally show ?case by simp
qed

section \<open>Tabulated factors\<close>

lemma override_in_extensions:
  "distinct vs \<Longrightarrow> ss \<in> set (assignments (map (card_of reg) vs)) \<Longrightarrow>
     override a vs ss \<in> extensions reg (set vs) a"
proof (induction vs arbitrary: ss)
  case Nil
  then show ?case by simp
next
  case (Cons v vs)
  from Cons.prems(2) obtain s ss' where ss: "ss = s # ss'" and s: "s < card_of reg v"
    and ss': "ss' \<in> set (assignments (map (card_of reg) vs))" by auto
  have "override a vs ss' \<in> extensions reg (set vs) a"
    using Cons.IH [OF _ ss'] Cons.prems(1) by simp
  then show ?case
    using s Cons.prems(1) by (auto simp: ss override_Cons extensions_def split: if_splits)
qed

lemma asg_of_override: "asg_of vs ss = override (\<lambda>v. 0) vs ss"
  by (simp add: asg_of_def override_def)

lemma extensions_valid: "b \<in> extensions reg V a \<Longrightarrow> v \<in> V \<Longrightarrow> b v < card_of reg v"
  by (auto simp: extensions_def split: if_splits)

lemma extensions_outside: "b \<in> extensions reg V a \<Longrightarrow> v \<notin> V \<Longrightarrow> b v = a v"
  by (auto simp: extensions_def split: if_splits)

lemma map_override_self:
  "distinct vs \<Longrightarrow> length ss = length vs \<Longrightarrow> map (override a vs ss) vs = ss"
proof (induction vs arbitrary: ss)
  case Nil
  then show ?case by simp
next
  case (Cons v vs)
  then obtain s ss' where ss: "ss = s # ss'" by (cases ss) auto
  have "map (override a vs ss') vs = ss'" using Cons ss by simp
  moreover have "map ((override a vs ss')(v := s)) vs = map (override a vs ss') vs"
    using Cons.prems(1) by (intro map_cong) auto
  moreover have "map (override a (v # vs) (s # ss')) (v # vs) =
                   s # map ((override a vs ss')(v := s)) vs"
    by (simp only: override_Cons list.map fun_upd_same)
  ultimately show ?case by (simp only: ss)
qed

lemma assignments_length: "ss \<in> set (assignments cs) \<Longrightarrow> length ss = length cs"
  by (simp add: set_assignments list_all2_lengthD)

lemma weights_tabulate_dense:
  assumes "distinct sc"
  shows "weights (tabulate reg sc F) =
           map (\<lambda>ss. weight_at reg (tabulate reg sc F) (asg_of sc ss))
               (assignments (map (card_of reg) sc))"
  unfolding weights_tabulate
proof (rule map_cong [OF refl])
  fix ss assume ss: "ss \<in> set (assignments (map (card_of reg) sc))"
  have len: "length ss = length sc" using assignments_length [OF ss] by simp
  have valid: "\<And>v. v \<in> set sc \<Longrightarrow> asg_of sc ss v < card_of reg v"
    unfolding asg_of_override
    by (rule extensions_valid [OF override_in_extensions [OF assms ss]])
  have "weight_at reg (tabulate reg sc F) (asg_of sc ss) = F (asg_of sc (map (asg_of sc ss) sc))"
    by (rule weight_at_tabulate) (rule valid)
  also have "map (asg_of sc ss) sc = ss"
    unfolding asg_of_override by (rule map_override_self [OF assms len])
  finally show "F (asg_of sc ss) = weight_at reg (tabulate reg sc F) (asg_of sc ss)" by simp
qed

lemma product_all_tabulated:
  "\<exists>F. product_all reg fs = tabulate reg (scope (product_all reg fs)) F"
proof (cases fs)
  case Nil
  have "product_all reg [] = tabulate reg [] (\<lambda>a. 1)"
    by (simp add: product_all_def unit_factor_def tabulate_def)
  then show ?thesis using Nil by (metis scope_tabulate)
next
  case (Cons f fs')
  then show ?thesis by (simp add: product_all_def product_def) (metis scope_tabulate)
qed

lemma sum_weights_dense:
  assumes "f = tabulate reg (scope f) F" and "distinct (scope f)"
  shows "sum_list (weights f) = (\<Sum>b\<in>extensions reg (set (scope f)) (\<lambda>v. 0). weight_at reg f b)"
proof -
  have "weights f = map (\<lambda>ss. weight_at reg f (asg_of (scope f) ss))
                        (assignments (map (card_of reg) (scope f)))"
    using weights_tabulate_dense [OF assms(2), of reg F] assms(1) by simp
  then have "sum_list (weights f) = sum_over reg (scope f) (weight_at reg f) (\<lambda>v. 0)"
    by (simp add: sum_over_def asg_of_override)
  then show ?thesis by (simp add: sum_over_extensions [OF assms(2)])
qed

section \<open>Nested sums over disjoint sets of variables\<close>

lemma extensions_union_sum:
  fixes H :: "assignment \<Rightarrow> rat"
  shows "distinct os \<Longrightarrow> set os \<inter> T = {} \<Longrightarrow>
     (\<Sum>b\<in>extensions reg T a. \<Sum>b'\<in>extensions reg (set os) b. H b') =
     (\<Sum>b\<in>extensions reg (T \<union> set os) a. H b)"
proof (induction os arbitrary: H)
  case Nil
  then show ?case by simp
next
  case (Cons v os)
  let ?H' = "\<lambda>b. \<Sum>s\<in>{..<card_of reg v}. H (b(v := s))"
  have "(\<Sum>b\<in>extensions reg T a. \<Sum>b'\<in>extensions reg (set (v # os)) b. H b') =
        (\<Sum>b\<in>extensions reg T a. \<Sum>b'\<in>extensions reg (set os) b. ?H' b')"
    using Cons.prems(1) by (simp add: extensions_insert_sum)
  also have "\<dots> = (\<Sum>b\<in>extensions reg (T \<union> set os) a. ?H' b)"
    using Cons.prems by (intro Cons.IH) auto
  also have "\<dots> = (\<Sum>b\<in>extensions reg (insert v (T \<union> set os)) a. H b)"
    using Cons.prems by (intro extensions_insert_sum) auto
  finally show ?case by simp
qed

section \<open>Reducing by evidence\<close>

lemma observe_Nil [simp]: "observe reg [] a = a"
  by (simp add: observe_def)

lemma observe_Cons:
  "observe reg (vs # ev) a =
     (observe reg ev a)(fst vs := (case state_index reg (fst vs) (snd vs) of None \<Rightarrow> 0 | Some s \<Rightarrow> s))"
  by (cases vs) (auto simp: observe_def)

lemma observe_valid:
  assumes "\<And>vs. vs \<in> set ev \<Longrightarrow> state_index reg (fst vs) (snd vs) \<noteq> None"
      and "u \<in> fst ` set ev \<or> a u < card_of reg u"
  shows "observe reg ev a u < card_of reg u"
proof (cases "map_of ev u")
  case None
  then have "u \<notin> fst ` set ev" by (simp add: map_of_eq_None_iff)
  with assms(2) None show ?thesis by (simp add: observe_def)
next
  case (Some st)
  then have "(u, st) \<in> set ev" by (rule map_of_SomeD)
  with assms(1) obtain s where "state_index reg u st = Some s" by fastforce
  with Some show ?thesis by (simp add: observe_def state_index_less)
qed

lemma observe_outside: "u \<notin> fst ` set ev \<Longrightarrow> observe reg ev a u = a u"
  by (simp add: observe_def map_of_eq_None_iff [THEN iffD2])

lemma reduce_evidence_sem:
  assumes "\<And>vs. vs \<in> set ev \<Longrightarrow> state_index reg (fst vs) (snd vs) \<noteq> None"
  shows "\<exists>g. reduce_evidence reg ev f = Inr g \<and>
             scope g = filter (\<lambda>u. u \<notin> fst ` set ev) (scope f) \<and>
             (\<forall>a. (\<forall>u\<in>set (scope g). a u < card_of reg u) \<longrightarrow>
                  weight_at reg g a = weight_at reg f (observe reg ev a))"
  using assms
proof (induction ev arbitrary: f)
  case Nil
  then show ?case by simp
next
  case (Cons vs ev)
  obtain v st where vs: "vs = (v, st)" by (cases vs)
  from Cons.prems [of vs] obtain s where s: "state_index reg v st = Some s"
    by (auto simp: vs)
  have ev_ok: "\<And>x. x \<in> set ev \<Longrightarrow> state_index reg (fst x) (snd x) \<noteq> None"
    using Cons.prems by simp
  have obs: "observe reg (vs # ev) a = (observe reg ev a)(v := s)" for a
    by (simp add: observe_Cons vs s)
  show ?case
  proof (cases "v \<in> set (scope f)")
    case True
    obtain g1 where g1: "reduceByEvidence reg v st f = Inr g1"
      using True s by (simp add: reduceByEvidence_def)
    have sc1: "scope g1 = filter (\<lambda>u. u \<noteq> v) (scope f)"
      using reduceByEvidence_Inr [OF g1] by simp
    from Cons.IH [where f = g1, OF ev_ok] obtain g where
      g: "reduce_evidence reg ev g1 = Inr g"
      and sc: "scope g = filter (\<lambda>u. u \<notin> fst ` set ev) (scope g1)"
      and w: "\<And>a. (\<forall>u\<in>set (scope g). a u < card_of reg u) \<Longrightarrow>
                  weight_at reg g a = weight_at reg g1 (observe reg ev a)"
      by blast
    have "weight_at reg g a = weight_at reg f (observe reg (vs # ev) a)"
      if a: "\<forall>u\<in>set (scope g). a u < card_of reg u" for a
    proof -
      have "weight_at reg g1 (observe reg ev a) = weight_at reg f ((observe reg ev a)(v := s))"
      proof (rule weight_at_reduceByEvidence [OF g1 s])
        fix u assume u: "u \<in> set (scope f)" "u \<noteq> v"
        show "observe reg ev a u < card_of reg u"
        proof (rule observe_valid [OF ev_ok])
          show "u \<in> fst ` set ev \<or> a u < card_of reg u"
            using u a sc sc1 by auto
        qed
      qed
      then show ?thesis using w [OF a] by (simp add: obs)
    qed
    moreover have "scope g = filter (\<lambda>u. u \<notin> fst ` set (vs # ev)) (scope f)"
      by (auto simp: sc sc1 vs intro: filter_cong)
    ultimately show ?thesis using True g g1 by (auto simp: vs)
  next
    case False
    from Cons.IH [where f = f, OF ev_ok] obtain g where
      g: "reduce_evidence reg ev f = Inr g"
      and sc: "scope g = filter (\<lambda>u. u \<notin> fst ` set ev) (scope f)"
      and w: "\<And>a. (\<forall>u\<in>set (scope g). a u < card_of reg u) \<Longrightarrow>
                  weight_at reg g a = weight_at reg f (observe reg ev a)"
      by blast
    have "weight_at reg f (observe reg ev a) = weight_at reg f (observe reg (vs # ev) a)" for a
      by (rule weight_at_cong) (use False in \<open>auto simp: obs\<close>)
    moreover have "scope g = filter (\<lambda>u. u \<notin> fst ` set (vs # ev)) (scope f)"
      unfolding sc using False by (intro filter_cong) (auto simp: vs)
    ultimately show ?thesis using False g w by (auto simp: vs)
  qed
qed

lemma reduce_each_sem:
  assumes "\<And>vs. vs \<in> set ev \<Longrightarrow> state_index reg (fst vs) (snd vs) \<noteq> None"
  shows "\<exists>gs. reduce_each reg ev fs = Inr gs \<and>
              map scope gs = map (\<lambda>f. filter (\<lambda>u. u \<notin> fst ` set ev) (scope f)) fs \<and>
              (\<forall>a. (\<forall>u\<in>(\<Union>g\<in>set gs. set (scope g)). a u < card_of reg u) \<longrightarrow>
                   joint_weight reg gs a = joint_weight reg fs (observe reg ev a))"
proof (induction fs)
  case Nil
  show ?case by simp
next
  case (Cons f fs)
  from reduce_evidence_sem [where f = f, OF assms] obtain g where
    g: "reduce_evidence reg ev f = Inr g"
    and sc: "scope g = filter (\<lambda>u. u \<notin> fst ` set ev) (scope f)"
    and w: "\<And>a. (\<forall>u\<in>set (scope g). a u < card_of reg u) \<Longrightarrow>
                weight_at reg g a = weight_at reg f (observe reg ev a)"
    by blast
  from Cons.IH obtain gs where
    gs: "reduce_each reg ev fs = Inr gs"
    and scs: "map scope gs = map (\<lambda>f. filter (\<lambda>u. u \<notin> fst ` set ev) (scope f)) fs"
    and ws: "\<And>a. (\<forall>u\<in>(\<Union>g\<in>set gs. set (scope g)). a u < card_of reg u) \<Longrightarrow>
                joint_weight reg gs a = joint_weight reg fs (observe reg ev a)"
    by blast
  have "joint_weight reg (g # gs) a = joint_weight reg (f # fs) (observe reg ev a)"
    if "\<forall>u\<in>(\<Union>g\<in>set (g # gs). set (scope g)). a u < card_of reg u" for a
    using that w [of a] ws [of a] by simp
  then show ?case using g gs sc scs by auto
qed

section \<open>What validation establishes\<close>

lemma validate_distinct: "validate m = Inr () \<Longrightarrow> distinct (var_names m)"
  by (auto simp: validate_def split: if_splits)

lemma validate_scope_ok: "validate m = Inr () \<Longrightarrow> vf \<in> set (cpts m) \<Longrightarrow> cpt_scope_ok m vf"
  by (auto simp: validate_def list_all_iff split: if_splits)

lemma validate_has_cpt:
  assumes "validate m = Inr ()" and "v \<in> set (var_names m)"
  shows "\<exists>vf\<in>set (cpts m). fst vf = v"
proof -
  have "length (filter (\<lambda>vf. fst vf = v) (cpts m)) = 1"
    using assms by (auto simp: validate_def list_all_iff split: if_splits)
  then have "filter (\<lambda>vf. fst vf = v) (cpts m) \<noteq> []" by auto
  then show ?thesis by (auto simp: filter_empty_conv)
qed

lemma validate_well_formed:
  "validate m = Inr () \<Longrightarrow> vf \<in> set (cpts m) \<Longrightarrow> well_formed (variables m) (snd vf)"
  using validate_scope_ok [of m vf] by (simp add: cpt_scope_ok_def)

lemma validate_scopes:
  assumes "validate m = Inr ()"
  shows "(\<Union>f\<in>set (map snd (cpts m)). set (scope f)) = set (var_names m)"
proof (intro equalityI subsetI)
  fix u assume "u \<in> (\<Union>f\<in>set (map snd (cpts m)). set (scope f))"
  then obtain vf where vf: "vf \<in> set (cpts m)" and u: "u \<in> set (scope (snd vf))" by auto
  from validate_well_formed [OF assms vf] u show "u \<in> set (var_names m)"
    by (auto simp: well_formed_def list_all_iff var_names_def)
next
  fix u assume "u \<in> set (var_names m)"
  from validate_has_cpt [OF assms this] obtain vf where vf: "vf \<in> set (cpts m)" and f: "fst vf = u"
    by blast
  from validate_scope_ok [OF assms vf] f have "u \<in> set (scope (snd vf))"
    by (auto simp: cpt_scope_ok_def split: list.splits)
  with vf show "u \<in> (\<Union>f\<in>set (map snd (cpts m)). set (scope f))" by auto
qed

section \<open>Elimination succeeds on variables that occur\<close>

lemma eliminate_all_succeeds:
  "distinct vs \<Longrightarrow> set vs \<subseteq> (\<Union>f\<in>set fs. set (scope f)) \<Longrightarrow>
     \<exists>gs. eliminate_all reg vs fs = Inr gs"
proof (induction vs arbitrary: fs)
  case Nil
  then show ?case by simp
next
  case (Cons v vs)
  have "v \<in> set (scope (product_all reg (filter (\<lambda>f. v \<in> set (scope f)) fs)))"
    using Cons.prems(2) by (auto simp: set_scope_product_all)
  then obtain hs where hs: "eliminate reg v fs = Inr hs"
    by (auto simp: eliminate_def marginalize_def)
  have "set vs \<subseteq> (\<Union>f\<in>set hs. set (scope f))"
    using Cons.prems eliminate_scopes [OF hs] by auto
  with Cons.IH [of hs] Cons.prems(1) obtain gs where "eliminate_all reg vs hs = Inr gs" by auto
  with hs show ?case by simp
qed

section \<open>The engine computes the enumeration\<close>

lemma normalize_tabulate:
  assumes "sum_list (weights h) = z" and "z \<noteq> 0" and "scope h = sc"
      and "weights h = map (\<lambda>ss. W (asg_of sc ss)) (assignments (map (card_of reg) sc))"
  shows "normalize h = Inr (tabulate reg sc (\<lambda>a. W a / z))"
  using assms by (cases h) (simp add: normalize_def tabulate_def Let_def)

lemma engine_enumerate:
  assumes qok: "query_ok m targets ev"
      and ord: "distinct order" "set order = set (to_eliminate m targets ev)"
      and sts: "list_all (\<lambda>vs. state_index (variables m) (fst vs) (snd vs) \<noteq> None) ev"
  shows "(evidence_mass m ev = 0 \<longrightarrow> engine m order targets ev = Inl DegenerateFactorError) \<and>
         (evidence_mass m ev \<noteq> 0 \<longrightarrow>
            (\<exists>r. engine m order targets ev = Inr r \<and> distinct (scope r) \<and>
                 set (scope r) = set targets \<and> enumerate m (scope r) ev = Inr r))"
proof -
  define reg where "reg = variables m"
  define fs0 where "fs0 = map snd (cpts m)"
  define K where "K = fst ` set ev"
  define T where "T = set targets"
  define J where "J = (\<lambda>b. joint m (observe reg ev b))"
  have val: "validate m = Inr ()" and tne: "targets \<noteq> []"
    and tv: "T \<subseteq> set (var_names m)" and kv: "K \<subseteq> set (var_names m)" and tk: "T \<inter> K = {}"
    using qok by (auto simp: query_ok_def list_all_iff T_def K_def)
  have sts': "\<And>vs. vs \<in> set ev \<Longrightarrow> state_index reg (fst vs) (snd vs) \<noteq> None"
    using sts by (simp add: list_all_iff reg_def)
  have dv: "distinct (var_names m)" by (rule validate_distinct [OF val])
  have O: "set order = set (var_names m) - T - K"
    using ord(2) by (auto simp: to_eliminate_def T_def K_def)
  have sc0: "(\<Union>f\<in>set fs0. set (scope f)) = set (var_names m)"
    unfolding fs0_def by (rule validate_scopes [OF val])
  have d0: "\<And>f. f \<in> set fs0 \<Longrightarrow> distinct (scope f)"
    using validate_well_formed [OF val] by (auto simp: fs0_def well_formed_def)
  from reduce_each_sem [where fs = fs0, OF sts'] obtain fs1 where
    fs1: "reduce_each reg ev fs0 = Inr fs1"
    and scs1: "map scope fs1 = map (\<lambda>f. filter (\<lambda>u. u \<notin> K) (scope f)) fs0"
    and w1: "\<And>a. (\<forall>u\<in>(\<Union>g\<in>set fs1. set (scope g)). a u < card_of reg u) \<Longrightarrow>
                joint_weight reg fs1 a = joint_weight reg fs0 (observe reg ev a)"
    unfolding K_def by blast
  have "(\<Union>g\<in>set fs1. set (scope g)) = \<Union> (set ` set (map scope fs1))" by auto
  also have "\<dots> = (\<Union>f\<in>set fs0. set (scope f)) - K" unfolding scs1 by auto
  finally have sc1: "(\<Union>g\<in>set fs1. set (scope g)) = set (var_names m) - K" by (simp add: sc0)
  have d1: "distinct (scope g)" if "g \<in> set fs1" for g
  proof -
    from that have "scope g \<in> set (map scope fs1)" by simp
    then obtain f where "f \<in> set fs0" "scope g = filter (\<lambda>u. u \<notin> K) (scope f)"
      unfolding scs1 by auto
    then show ?thesis using d0 by simp
  qed
  have "set order \<subseteq> (\<Union>g\<in>set fs1. set (scope g))" using O sc1 by auto
  from eliminate_all_succeeds [OF ord(1) this] obtain gs where
    gs: "eliminate_all reg order fs1 = Inr gs" by blast
  have scg: "(\<Union>g\<in>set gs. set (scope g)) = T"
    using eliminate_all_scopes [OF gs] sc1 O tv tk by auto
  have dg: "\<And>g. g \<in> set gs \<Longrightarrow> distinct (scope g)"
    using eliminate_all_distinct [OF gs] d1 by blast
  define h where "h = product_all reg gs"
  have sch: "set (scope h) = T" by (simp add: h_def set_scope_product_all scg)
  have dh: "distinct (scope h)" unfolding h_def by (rule distinct_scope_product_all) (rule dg)
  obtain F where hF: "h = tabulate reg (scope h) F"
    using product_all_tabulated [of reg gs] by (auto simp: h_def)
  have J0: "joint_weight reg fs0 b = joint m b" for b
    by (simp add: joint_def fs0_def reg_def)
  \<comment> \<open>the weight of the final product at an assignment valid on the targets\<close>
  have H1: "weight_at reg h a = (\<Sum>b\<in>extensions reg (set order) a. J b)"
    if a: "\<And>u. u \<in> T \<Longrightarrow> a u < card_of reg u" for a
  proof -
    have "weight_at reg h a = joint_weight reg gs a"
      unfolding h_def by (rule weight_at_product_all) (simp add: scg a)
    also have "\<dots> = (\<Sum>b\<in>extensions reg (set order) a. joint_weight reg fs1 b)"
      by (rule joint_weight_eliminate_all [OF gs ord(1)]) (use sc1 O a tv in auto)
    also have "\<dots> = (\<Sum>b\<in>extensions reg (set order) a. J b)"
    proof (rule sum.cong [OF refl])
      fix b assume b: "b \<in> extensions reg (set order) a"
      have "\<forall>u\<in>(\<Union>g\<in>set fs1. set (scope g)). b u < card_of reg u"
      proof
        fix u assume "u \<in> (\<Union>g\<in>set fs1. set (scope g))"
        then have u: "u \<in> set (var_names m) - K" by (simp add: sc1)
        show "b u < card_of reg u"
        proof (cases "u \<in> set order")
          case True
          then show ?thesis by (rule extensions_valid [OF b])
        next
          case False
          with u O have "u \<in> T" by auto
          with a extensions_outside [OF b False] show ?thesis by simp
        qed
      qed
      from w1 [OF this] show "joint_weight reg fs1 b = J b" by (simp add: J_def J0)
    qed
    finally show ?thesis .
  qed
  have d_un: "distinct (unobserved m ev)" using dv by (simp add: unobserved_def)
  have s_un: "set (unobserved m ev) = T \<union> set order"
    using O tv tk by (auto simp: unobserved_def K_def)
  have d_el: "distinct (to_eliminate m (scope h) ev)" using dv by (simp add: to_eliminate_def)
  have el_eq: "to_eliminate m (scope h) ev = to_eliminate m targets ev"
    using sch by (simp add: to_eliminate_def T_def)
  \<comment> \<open>the normalising constant\<close>
  have "sum_list (weights h) = (\<Sum>b\<in>extensions reg T (\<lambda>v. 0). weight_at reg h b)"
    using sum_weights_dense [OF hF dh] by (simp add: sch)
  also have "\<dots> = (\<Sum>b\<in>extensions reg T (\<lambda>v. 0). \<Sum>b'\<in>extensions reg (set order) b. J b')"
    by (rule sum.cong [OF refl]) (rule H1, rule extensions_valid)
  also have "\<dots> = (\<Sum>b\<in>extensions reg (T \<union> set order) (\<lambda>v. 0). J b)"
    by (rule extensions_union_sum [OF ord(1)]) (use O in auto)
  also have "\<dots> = evidence_mass m ev"
    unfolding evidence_mass_def
    using sum_over_extensions [OF d_un, of reg J "\<lambda>v. 0"] by (simp add: s_un J_def reg_def)
  finally have z: "sum_list (weights h) = evidence_mass m ev" .
  \<comment> \<open>the weights, in the form of the enumeration\<close>
  have wh: "weights h = map (\<lambda>ss. sum_over reg (to_eliminate m (scope h) ev) J (asg_of (scope h) ss))
                            (assignments (map (card_of reg) (scope h)))"
  proof -
    have "weights h = map (\<lambda>ss. weight_at reg h (asg_of (scope h) ss))
                          (assignments (map (card_of reg) (scope h)))"
      using weights_tabulate_dense [OF dh, of reg F] hF by simp
    also have "\<dots> = map (\<lambda>ss. sum_over reg (to_eliminate m (scope h) ev) J (asg_of (scope h) ss))
                          (assignments (map (card_of reg) (scope h)))"
    proof (rule map_cong [OF refl])
      fix ss assume ss: "ss \<in> set (assignments (map (card_of reg) (scope h)))"
      have mem: "asg_of (scope h) ss \<in> extensions reg (set (scope h)) (\<lambda>v. 0)"
        unfolding asg_of_override by (rule override_in_extensions [OF dh ss])
      have "weight_at reg h (asg_of (scope h) ss) =
              (\<Sum>b\<in>extensions reg (set order) (asg_of (scope h) ss). J b)"
        by (rule H1) (use extensions_valid [OF mem] sch in auto)
      also have "\<dots> = sum_over reg (to_eliminate m (scope h) ev) J (asg_of (scope h) ss)"
        using sum_over_extensions [OF d_el, of reg J] by (simp add: el_eq ord(2))
      finally show "weight_at reg h (asg_of (scope h) ss) =
                      sum_over reg (to_eliminate m (scope h) ev) J (asg_of (scope h) ss)" .
    qed
    finally show ?thesis .
  qed
  have eng: "engine m order targets ev = normalize h"
    using qok ord sts fs1 gs by (simp add: engine_def reg_def [symmetric] fs0_def [symmetric] h_def)
  show ?thesis
  proof (intro conjI impI)
    assume "evidence_mass m ev = 0"
    then show "engine m order targets ev = Inl DegenerateFactorError"
      by (simp add: eng normalize_def z)
  next
    assume nz: "evidence_mass m ev \<noteq> 0"
    let ?r = "tabulate reg (scope h) (\<lambda>a. sum_over reg (to_eliminate m (scope h) ev) J a / evidence_mass m ev)"
    have "normalize h = Inr ?r"
      by (rule normalize_tabulate [OF z nz refl wh])
    moreover have "enumerate m (scope h) ev = Inr ?r"
      using nz by (simp add: enumerate_def reg_def J_def)
    ultimately show "\<exists>r. engine m order targets ev = Inr r \<and> distinct (scope r) \<and>
                       set (scope r) = set targets \<and> enumerate m (scope r) ev = Inr r"
      using dh sch by (simp add: eng T_def)
  qed
qed

section \<open>The total weight of a validated model\<close>

lemma extensions_insert_sum_outer:
  fixes G :: "assignment \<Rightarrow> rat"
  assumes "v \<notin> V"
  shows "(\<Sum>b\<in>extensions reg (insert v V) a. G b) =
         (\<Sum>s\<in>{..<card_of reg v}. \<Sum>b\<in>extensions reg V (a(v := s)). G b)"
proof -
  have "(\<Sum>b\<in>extensions reg (insert v V) a. G b) =
        (\<Sum>b\<in>extensions reg V a. \<Sum>s\<in>{..<card_of reg v}. G (b(v := s)))"
    by (rule extensions_insert_sum [OF assms, symmetric])
  also have "\<dots> = (\<Sum>s\<in>{..<card_of reg v}. \<Sum>b\<in>extensions reg V a. G (b(v := s)))"
    by (rule sum.swap)
  also have "\<dots> = (\<Sum>s\<in>{..<card_of reg v}. \<Sum>b\<in>extensions reg V (a(v := s)). G b)"
  proof (rule sum.cong [OF refl])
    fix s
    show "(\<Sum>b\<in>extensions reg V a. G (b(v := s))) = (\<Sum>b\<in>extensions reg V (a(v := s)). G b)"
    proof (rule sum.reindex_bij_witness [where i = "\<lambda>b. b(v := a v)" and j = "\<lambda>b. b(v := s)"],
           goal_cases)
      case (1 b)
      then have "b v = a v" using assms by (simp add: extensions_def)
      then show ?case by auto
    next
      case (2 b)
      then show ?case using assms by (auto simp: extensions_def)
    next
      case (3 b)
      then have "b v = s" using assms by (auto simp: extensions_def split: if_splits)
      then show ?case by auto
    next
      case (4 b)
      then show ?case using assms by (auto simp: extensions_def split: if_splits)
    next
      case (5 b)
      show ?case by simp
    qed
  qed
  finally show ?thesis .
qed

lemma first_unnormalized_None:
  "first_unnormalized reg cs = None \<Longrightarrow> vf \<in> set cs \<Longrightarrow>
     pa \<in> set (parent_assignments reg (snd vf)) \<Longrightarrow> \<bar>slice_sum reg (snd vf) pa - 1\<bar> \<le> tolerance"
  by (induction cs) (auto simp: find_None_iff split: option.splits)

lemma validate_normalized:
  "validate m = Inr () \<Longrightarrow> vf \<in> set (cpts m) \<Longrightarrow>
     pa \<in> set (parent_assignments (variables m) (snd vf)) \<Longrightarrow>
     \<bar>slice_sum (variables m) (snd vf) pa - 1\<bar> \<le> tolerance"
  by (rule first_unnormalized_None [of "variables m" "cpts m"])
     (auto simp: validate_def split: if_splits option.splits)

lemma validate_unique_cpt:
  assumes "validate m = Inr ()" and "v \<in> set (var_names m)"
  shows "\<exists>f. filter (\<lambda>vf. fst vf = v) (cpts m) = [(v, f)]"
proof -
  have "length (filter (\<lambda>vf. fst vf = v) (cpts m)) = 1"
    using assms by (auto simp: validate_def list_all_iff split: if_splits)
  then obtain vf where vf: "filter (\<lambda>vf. fst vf = v) (cpts m) = [vf]"
    by (auto simp: length_Suc_conv)
  then have "vf \<in> set (filter (\<lambda>vf. fst vf = v) (cpts m))" by simp
  then have "fst vf = v" by simp
  then show ?thesis using vf by (cases vf) auto
qed

lemma weight_at_nonneg:
  assumes "well_formed reg f" and "\<And>u. u \<in> set (scope f) \<Longrightarrow> a u < card_of reg u"
  shows "0 \<le> weight_at reg f a"
proof -
  have "list_all2 (<) (map a (scope f)) (map (card_of reg) (scope f))"
    using assms(2) by (simp add: list_all2_map1 list_all2_map2 list_all2_same)
  from assignments_nth [OF this]
  have "flat_index (map (card_of reg) (scope f)) (map a (scope f)) < length (weights f)"
    using assms(1) by (simp add: well_formed_def)
  then have "weight_at reg f a \<in> set (weights f)" by (simp add: weight_at_def)
  then show ?thesis using assms(1) by (auto simp: well_formed_def list_all_iff)
qed

lemma joint_weight_nonneg:
  "(\<And>f. f \<in> set fs \<Longrightarrow> 0 \<le> weight_at reg f a) \<Longrightarrow> 0 \<le> joint_weight reg fs a"
  by (induction fs) simp_all

lemma prod_list_partition:
  fixes w :: "'a \<Rightarrow> rat"
  shows "prod_list (map w xs) =
           prod_list (map w (filter P xs)) * prod_list (map w (filter (\<lambda>x. \<not> P x) xs))"
  by (induction xs) simp_all

text \<open>The sum of a CPT over the child's states, as a slice sum.\<close>

lemma sum_child_slice:
  assumes "scope f = r # ps" and "r \<notin> set ps"
  shows "(\<Sum>s\<in>{..<card_of reg r}. weight_at reg f (a(r := s))) = slice_sum reg f (map a ps)"
proof -
  have eq: "map (a(r := s)) ps = map a ps" for s
    using assms(2) by (intro map_cong) auto
  have "weight_at reg f (a(r := s)) =
          weights f ! flat_index (map (card_of reg) (scope f)) (s # map a ps)" for s
    unfolding weight_at_def assms(1) list.map fun_upd_same eq ..
  then show ?thesis
    by (simp only: slice_sum_def sum_list_upt_sum assms(1) list.sel)
qed

lemma topo_sort_mass_pos:
  assumes val: "validate m = Inr ()"
  shows "topo_sort n vs (edges m) = Some ts \<Longrightarrow> set vs \<subseteq> set (var_names m) \<Longrightarrow>
         (\<And>u. u \<in> set (var_names m) \<Longrightarrow> u \<notin> set vs \<Longrightarrow> a u < card_of (variables m) u) \<Longrightarrow>
         0 < (\<Sum>b\<in>extensions (variables m) (set vs) a.
                joint_weight (variables m) (map snd (filter (\<lambda>vf. fst vf \<in> set vs) (cpts m))) b)"
proof (induction n arbitrary: vs ts a)
  case 0
  then have "vs = []" by (auto split: if_splits)
  then show ?case by simp
next
  case (Suc n)
  let ?reg = "variables m"
  show ?case
  proof (cases "vs = []")
    case True
    then show ?thesis by simp
  next
    case False
    let ?roots = "filter (\<lambda>v. \<not> list_ex (\<lambda>e. snd e = v \<and> fst e \<in> set vs) (edges m)) vs"
    from Suc.prems(1) False obtain r rest ts' where
      roots: "?roots = r # rest" and ts': "topo_sort n (removeAll r vs) (edges m) = Some ts'"
      by (auto split: list.splits)
    have "r \<in> set ?roots" by (simp add: roots)
    then have r_vs: "r \<in> set vs"
      and r_root: "\<And>e. e \<in> set (edges m) \<Longrightarrow> snd e = r \<Longrightarrow> fst e \<notin> set vs"
      by (auto simp: list_ex_iff)
    have r_var: "r \<in> set (var_names m)" using r_vs Suc.prems(2) by auto
    let ?V' = "set (removeAll r vs)"
    have V: "set vs = insert r ?V'" and rV': "r \<notin> ?V'" using r_vs by auto
    from validate_unique_cpt [OF val r_var] obtain f where
      f: "filter (\<lambda>vf. fst vf = r) (cpts m) = [(r, f)]" by blast
    then have "(r, f) \<in> set (filter (\<lambda>vf. fst vf = r) (cpts m))" by simp
    then have f_in: "(r, f) \<in> set (cpts m)" by simp
    have ok: "cpt_scope_ok m (r, f)" by (rule validate_scope_ok [OF val f_in])
    then obtain ps where sc: "scope f = r # ps" and ps: "set ps = set (parents m r)"
      and wf: "well_formed ?reg f"
      by (auto simp: cpt_scope_ok_def split: list.splits)
    have r_ps: "r \<notin> set ps" using wf sc by (simp add: well_formed_def)
    have ps_out: "u \<notin> set vs" if "u \<in> set ps" for u
      using that ps r_root by (auto simp: parents_def)
    have ps_var: "u \<in> set (var_names m)" if "u \<in> set ps" for u
      using that wf sc by (auto simp: well_formed_def list_all_iff var_names_def)
    have ps_valid: "a u < card_of ?reg u" if "u \<in> set ps" for u
      using Suc.prems(3) [OF ps_var [OF that] ps_out [OF that]] .
    let ?rest = "map snd (filter (\<lambda>vf. fst vf \<in> ?V') (cpts m))"
    let ?all = "map snd (filter (\<lambda>vf. fst vf \<in> set vs) (cpts m))"
    let ?M' = "\<lambda>a. \<Sum>b\<in>extensions ?reg ?V' a. joint_weight ?reg ?rest b"
    have split: "joint_weight ?reg ?all b = weight_at ?reg f b * joint_weight ?reg ?rest b" for b
    proof -
      have 1: "filter (\<lambda>vf. fst vf = r) (filter (\<lambda>vf. fst vf \<in> set vs) (cpts m)) = [(r, f)]"
        using f r_vs by (simp add: conj_commute cong: conj_cong)
      have 2: "filter (\<lambda>vf. fst vf \<noteq> r) (filter (\<lambda>vf. fst vf \<in> set vs) (cpts m)) =
               filter (\<lambda>vf. fst vf \<in> ?V') (cpts m)"
        by (auto intro: filter_cong)
      have "joint_weight ?reg ?all b =
              prod_list (map (\<lambda>vf. weight_at ?reg (snd vf) b) (filter (\<lambda>vf. fst vf \<in> set vs) (cpts m)))"
        by (simp add: joint_weight_def o_def)
      also have "\<dots> =
              prod_list (map (\<lambda>vf. weight_at ?reg (snd vf) b)
                 (filter (\<lambda>vf. fst vf = r) (filter (\<lambda>vf. fst vf \<in> set vs) (cpts m)))) *
              prod_list (map (\<lambda>vf. weight_at ?reg (snd vf) b)
                 (filter (\<lambda>vf. fst vf \<noteq> r) (filter (\<lambda>vf. fst vf \<in> set vs) (cpts m))))"
        by (rule prod_list_partition)
      finally show ?thesis by (simp only: 1 2) (simp add: joint_weight_def o_def)
    qed
    have f_const: "weight_at ?reg f b = weight_at ?reg f (a(r := s))"
      if "b \<in> extensions ?reg ?V' (a(r := s))" for b s
    proof (rule weight_at_cong)
      fix u assume "u \<in> set (scope f)"
      then have "u \<notin> ?V'" using sc ps_out by auto
      then show "b u = (a(r := s)) u" by (rule extensions_outside [OF that])
    qed
    have f_nonneg: "0 \<le> weight_at ?reg f (a(r := s))" if "s < card_of ?reg r" for s
      by (rule weight_at_nonneg [OF wf]) (use that sc ps_valid in auto)
    have M'_pos: "0 < ?M' (a(r := s))" if "s < card_of ?reg r" for s
    proof (rule Suc.IH [OF ts'])
      show "?V' \<subseteq> set (var_names m)" using Suc.prems(2) by auto
      fix u assume "u \<in> set (var_names m)" "u \<notin> ?V'"
      then show "(a(r := s)) u < card_of ?reg u"
        using that Suc.prems(3) [of u] by auto
    qed
    have "(\<Sum>b\<in>extensions ?reg (set vs) a. joint_weight ?reg ?all b) =
          (\<Sum>s\<in>{..<card_of ?reg r}. \<Sum>b\<in>extensions ?reg ?V' (a(r := s)).
              weight_at ?reg f b * joint_weight ?reg ?rest b)"
    proof -
      have "extensions ?reg (set vs) a = extensions ?reg (insert r ?V') a"
        using V by simp
      then show ?thesis
        by (simp only: split) (rule extensions_insert_sum_outer [OF rV'])
    qed
    also have "\<dots> = (\<Sum>s\<in>{..<card_of ?reg r}. weight_at ?reg f (a(r := s)) * ?M' (a(r := s)))"
      by (rule sum.cong [OF refl]) (simp add: f_const sum_distrib_left)
    finally have eq: "(\<Sum>b\<in>extensions ?reg (set vs) a. joint_weight ?reg ?all b) =
          (\<Sum>s\<in>{..<card_of ?reg r}. weight_at ?reg f (a(r := s)) * ?M' (a(r := s)))" .
    have "map a ps \<in> set (parent_assignments ?reg f)"
      using ps_valid
      by (simp add: parent_assignments_def sc set_assignments list_all2_map1 list_all2_map2 list_all2_same)
    from validate_normalized [OF val f_in] this
    have "\<bar>slice_sum ?reg f (map a ps) - 1\<bar> \<le> tolerance" by simp
    then have "0 < slice_sum ?reg f (map a ps)" unfolding tolerance_def by linarith
    then have "0 < (\<Sum>s\<in>{..<card_of ?reg r}. weight_at ?reg f (a(r := s)))"
      by (simp add: sum_child_slice [OF sc r_ps])
    then obtain s0 where s0: "s0 < card_of ?reg r" "0 < weight_at ?reg f (a(r := s0))"
      using f_nonneg by (metis lessThan_iff less_le_not_le sum_nonpos)
    have "0 < (\<Sum>s\<in>{..<card_of ?reg r}. weight_at ?reg f (a(r := s)) * ?M' (a(r := s)))"
    proof (rule sum_pos2 [where i = s0])
      show "0 < weight_at ?reg f (a(r := s0)) * ?M' (a(r := s0))"
        using s0 M'_pos by simp
      fix s assume "s \<in> {..<card_of ?reg r}"
      then show "0 \<le> weight_at ?reg f (a(r := s)) * ?M' (a(r := s))"
        using f_nonneg M'_pos by (simp add: less_imp_le)
    qed (use s0 in auto)
    then show ?thesis by (simp only: eq)
  qed
qed

lemma validate_cpt_vars: "validate m = Inr () \<Longrightarrow> vf \<in> set (cpts m) \<Longrightarrow> fst vf \<in> set (var_names m)"
  using validate_scope_ok [of m vf]
  by (auto simp: cpt_scope_ok_def well_formed_def list_all_iff var_names_def split: list.splits)

lemma evidence_mass_extensions:
  assumes "distinct (var_names m)"
  shows "evidence_mass m ev =
           (\<Sum>b\<in>extensions (variables m) (set (unobserved m ev)) (\<lambda>v. 0).
               joint m (observe (variables m) ev b))"
proof -
  have "distinct (unobserved m ev)" using assms by (simp add: unobserved_def)
  then show ?thesis by (simp add: evidence_mass_def sum_over_extensions)
qed

lemma total_mass_pos:
  assumes val: "validate m = Inr ()"
  shows "0 < evidence_mass m []"
proof -
  from val obtain ts where ts: "topo_sort (length (var_names m)) (var_names m) (edges m) = Some ts"
    by (auto simp: validate_def split: if_splits)
  have all: "filter (\<lambda>vf. fst vf \<in> set (var_names m)) (cpts m) = cpts m"
    using validate_cpt_vars [OF val] by (simp add: filter_id_conv)
  have "0 < (\<Sum>b\<in>extensions (variables m) (set (var_names m)) (\<lambda>v. 0).
                joint_weight (variables m)
                  (map snd (filter (\<lambda>vf. fst vf \<in> set (var_names m)) (cpts m))) b)"
    by (rule topo_sort_mass_pos [OF val ts]) auto
  then show ?thesis
    by (simp add: evidence_mass_extensions [OF validate_distinct [OF val]] all joint_def
        unobserved_def)
qed

section \<open>Consequences for queries\<close>

lemma distinct_singleton: "distinct xs \<Longrightarrow> set xs = {x} \<Longrightarrow> xs = [x]"
  by (cases xs) (auto simp: subset_singleton_iff dest!: subset_singletonD)

lemma sum_list_divide: "sum_list (map (\<lambda>w. w / z) ws) = sum_list ws / (z :: rat)"
  by (induction ws) (simp_all add: add_divide_distrib)

lemma normalize_sum: "normalize h = Inr r \<Longrightarrow> sum_list (weights r) = 1 \<and> scope r = scope h"
  by (auto simp: normalize_def Let_def sum_list_divide split: if_splits)

lemma engine_Inr_sum: "engine m order targets ev = Inr r \<Longrightarrow> sum_list (weights r) = 1"
  by (auto simp: engine_def split: if_splits sum.splits dest: normalize_sum)

lemma engine_single:
  assumes "query_ok m [x] ev" and "valid_evidence m ev"
      and "distinct order" and "set order = set (to_eliminate m [x] ev)"
  shows "engine m order [x] ev = enumerate m [x] ev"
proof (cases "evidence_mass m ev = 0")
  case True
  then show ?thesis
    using engine_enumerate [OF assms(1,3,4)] assms(2)
    by (simp add: valid_evidence_def enumerate_def)
next
  case False
  with engine_enumerate [OF assms(1,3,4)] assms(2) obtain r where
    r: "engine m order [x] ev = Inr r" "distinct (scope r)" "set (scope r) = {x}"
       "enumerate m (scope r) ev = Inr r"
    by (auto simp: valid_evidence_def)
  have "scope r = [x]" by (rule distinct_singleton [OF r(2,3)])
  with r show ?thesis by simp
qed

lemma plan_order_ok:
  "validate m = Inr () \<Longrightarrow>
     distinct (plan_order m targets ev) \<and>
     set (plan_order m targets ev) = set (to_eliminate m targets ev)"
  using validate_distinct [of m] by (simp add: plan_order_def to_eliminate_def)

lemma query_single:
  assumes "query_ok m [x] ev" and "valid_evidence m ev"
  shows "query m [x] ev = enumerate m [x] ev"
proof -
  have "validate m = Inr ()" using assms(1) by (simp add: query_ok_def)
  from plan_order_ok [OF this, of "[x]" ev] show ?thesis
    unfolding query_def by (intro engine_single [OF assms]) simp_all
qed

section \<open>Strictly positive tables\<close>

lemma sum_list_pos_rat:
  fixes xs :: "rat list"
  shows "xs \<noteq> [] \<Longrightarrow> (\<And>x. x \<in> set xs \<Longrightarrow> 0 < x) \<Longrightarrow> 0 < sum_list xs"
proof (induction xs)
  case Nil
  then show ?case by simp
next
  case (Cons a xs)
  have a: "0 < a" using Cons.prems(2) by simp
  show ?case
  proof (cases "xs = []")
    case True
    with a show ?thesis by simp
  next
    case False
    with Cons have "0 < sum_list xs" by simp
    with a show ?thesis by simp
  qed
qed

lemma prod_list_pos_nat: "(\<And>x. x \<in> set xs \<Longrightarrow> 0 < x) \<Longrightarrow> 0 < prod_list (xs :: nat list)"
  by (induction xs) simp_all

lemma weight_at_mem:
  assumes "well_formed reg f" and "\<And>u. u \<in> set (scope f) \<Longrightarrow> a u < card_of reg u"
  shows "weight_at reg f a \<in> set (weights f)"
proof -
  have "list_all2 (<) (map a (scope f)) (map (card_of reg) (scope f))"
    using assms(2) by (simp add: list_all2_map1 list_all2_map2 list_all2_same)
  from assignments_nth [OF this]
  have "flat_index (map (card_of reg) (scope f)) (map a (scope f)) < length (weights f)"
    using assms(1) by (simp add: well_formed_def)
  then show ?thesis by (simp add: weight_at_def)
qed

lemma joint_weight_pos:
  "(\<And>f. f \<in> set fs \<Longrightarrow> 0 < weight_at reg f a) \<Longrightarrow> 0 < joint_weight reg fs a"
  by (induction fs) simp_all

lemma validate_card_pos:
  assumes "validate m = Inr ()" and "u \<in> set (var_names m)"
  shows "0 < card_of (variables m) u"
proof -
  have "map_of (variables m) u \<noteq> None"
    using assms(2) by (simp add: var_names_def map_of_eq_None_iff)
  then obtain sts where "map_of (variables m) u = Some sts" by auto
  moreover from this have "(u, sts) \<in> set (variables m)" by (rule map_of_SomeD)
  moreover have "list_all (\<lambda>vs. snd vs \<noteq> [] \<and> distinct (snd vs)) (variables m)"
    using assms(1) by (auto simp: validate_def split: if_splits)
  ultimately show ?thesis by (auto simp: card_of_def list_all_iff)
qed

lemma positive_evidence_mass:
  assumes val: "validate m = Inr ()"
      and pos: "\<And>vf w. vf \<in> set (cpts m) \<Longrightarrow> w \<in> set (weights (snd vf)) \<Longrightarrow> 0 < w"
      and ev: "valid_evidence m ev"
  shows "0 < evidence_mass m ev"
proof -
  let ?reg = "variables m"
  let ?U = "unobserved m ev"
  let ?J = "\<lambda>b. joint m (observe ?reg ev b)"
  have dU: "distinct ?U" using validate_distinct [OF val] by (simp add: unobserved_def)
  have ev': "\<And>vs. vs \<in> set ev \<Longrightarrow> state_index ?reg (fst vs) (snd vs) \<noteq> None"
    using ev by (simp add: valid_evidence_def list_all_iff)
  have "0 < prod_list (map (card_of ?reg) ?U)"
    by (rule prod_list_pos_nat) (use validate_card_pos [OF val] in \<open>auto simp: unobserved_def\<close>)
  then have ne: "assignments (map (card_of ?reg) ?U) \<noteq> []"
    using length_assignments [of "map (card_of ?reg) ?U"] by auto
  have each: "0 < ?J (override (\<lambda>v. 0) ?U ss)"
    if ss: "ss \<in> set (assignments (map (card_of ?reg) ?U))" for ss
  proof -
    let ?b = "override (\<lambda>v. 0) ?U ss"
    have b: "?b \<in> extensions ?reg (set ?U) (\<lambda>v. 0)" by (rule override_in_extensions [OF dU ss])
    have valid: "observe ?reg ev ?b u < card_of ?reg u" if "u \<in> set (var_names m)" for u
    proof (rule observe_valid [OF ev'])
      show "u \<in> fst ` set ev \<or> ?b u < card_of ?reg u"
      proof (cases "u \<in> fst ` set ev")
        case False
        with that have "u \<in> set ?U" by (simp add: unobserved_def)
        then show ?thesis using extensions_valid [OF b] by simp
      qed simp
    qed
    have "0 < joint_weight ?reg (map snd (cpts m)) (observe ?reg ev ?b)"
    proof (rule joint_weight_pos)
      fix f assume "f \<in> set (map snd (cpts m))"
      then obtain vf where vf: "vf \<in> set (cpts m)" "f = snd vf" by auto
      have wf: "well_formed ?reg f" using validate_well_formed [OF val vf(1)] vf(2) by simp
      have "weight_at ?reg f (observe ?reg ev ?b) \<in> set (weights f)"
      proof (rule weight_at_mem [OF wf])
        fix u assume "u \<in> set (scope f)"
        then have "u \<in> set (var_names m)"
          using wf by (auto simp: well_formed_def list_all_iff var_names_def)
        then show "observe ?reg ev ?b u < card_of ?reg u" by (rule valid)
      qed
      then show "0 < weight_at ?reg f (observe ?reg ev ?b)" using pos vf by auto
    qed
    then show ?thesis by (simp add: joint_def)
  qed
  have "0 < sum_list (map (\<lambda>ss. ?J (override (\<lambda>v. 0) ?U ss)) (assignments (map (card_of ?reg) ?U)))"
    by (rule sum_list_pos_rat) (use ne each in auto)
  then show ?thesis by (simp add: evidence_mass_def sum_over_def)
qed

section \<open>Results do not depend on the elimination order\<close>

lemma asg_of_valid:
  "distinct sc \<Longrightarrow> ss \<in> set (assignments (map (card_of reg) sc)) \<Longrightarrow> v \<in> set sc \<Longrightarrow>
     asg_of sc ss v < card_of reg v"
  unfolding asg_of_override
  by (rule extensions_valid [OF override_in_extensions])

lemma enumerate_weight_at:
  assumes "enumerate m sc ev = Inr r"
      and "\<And>v. v \<in> set sc \<Longrightarrow> a v < card_of (variables m) v"
  shows "weight_at (variables m) r a =
           sum_over (variables m) (to_eliminate m sc ev)
             (\<lambda>b. joint m (observe (variables m) ev b)) (\<lambda>v. if v \<in> set sc then a v else 0)
           / evidence_mass m ev"
proof -
  have r: "r = tabulate (variables m) sc
                 (\<lambda>a. sum_over (variables m) (to_eliminate m sc ev)
                              (\<lambda>b. joint m (observe (variables m) ev b)) a / evidence_mass m ev)"
    using assms(1) by (auto simp: enumerate_def split: if_splits)
  have "asg_of sc (map a sc) = (\<lambda>v. if v \<in> set sc then a v else 0)"
    by (rule ext) (rule asg_of_map)
  then show ?thesis
    unfolding r using weight_at_tabulate [of sc a "variables m"] assms(2) by simp
qed

lemma enumerate_scope: "enumerate m sc ev = Inr r \<Longrightarrow> scope r = sc"
  by (auto simp: enumerate_def split: if_splits)

lemma enumerate_same_distribution:
  assumes r1: "enumerate m sc1 ev = Inr r1" and r2: "enumerate m sc2 ev = Inr r2"
      and s: "set sc1 = set sc2" and d: "distinct sc1"
  shows "same_distribution (variables m) r1 r2"
proof -
  have el: "to_eliminate m sc1 ev = to_eliminate m sc2 ev" using s by (simp add: to_eliminate_def)
  have "weight_at (variables m) r1 (asg_of sc1 ss) = weight_at (variables m) r2 (asg_of sc1 ss)"
    if ss: "ss \<in> set (assignments (map (card_of (variables m)) sc1))" for ss
  proof -
    have valid: "\<And>v. v \<in> set sc1 \<Longrightarrow> asg_of sc1 ss v < card_of (variables m) v"
      by (rule asg_of_valid [OF d ss])
    show ?thesis
      using enumerate_weight_at [OF r1 valid] enumerate_weight_at [OF r2, of "asg_of sc1 ss"] valid s
      by (simp add: el)
  qed
  then show ?thesis
    using s by (simp add: same_distribution_def enumerate_scope [OF r1] enumerate_scope [OF r2] list_all_iff)
qed

lemma engine_order_independent:
  assumes qok: "query_ok m targets ev" and ev: "valid_evidence m ev"
      and o1: "distinct o1" "set o1 = set (to_eliminate m targets ev)"
      and o2: "distinct o2" "set o2 = set (to_eliminate m targets ev)"
  shows "same_result (variables m) (engine m o1 targets ev) (engine m o2 targets ev)"
proof (cases "evidence_mass m ev = 0")
  case True
  then show ?thesis
    using engine_enumerate [OF qok o1] engine_enumerate [OF qok o2] ev
    by (simp add: valid_evidence_def)
next
  case False
  with engine_enumerate [OF qok o1] ev obtain r1 where
    r1: "engine m o1 targets ev = Inr r1" "distinct (scope r1)" "set (scope r1) = set targets"
        "enumerate m (scope r1) ev = Inr r1"
    by (auto simp: valid_evidence_def)
  from False engine_enumerate [OF qok o2] ev obtain r2 where
    r2: "engine m o2 targets ev = Inr r2" "distinct (scope r2)" "set (scope r2) = set targets"
        "enumerate m (scope r2) ev = Inr r2"
    by (auto simp: valid_evidence_def)
  have "same_distribution (variables m) r1 r2"
    by (rule enumerate_same_distribution [OF r1(4) r2(4)]) (simp_all add: r1 r2)
  then show ?thesis by (simp add: r1 r2)
qed

section \<open>The iterations of the diagnosis functions\<close>

lemma update_new: "k \<notin> fst ` set al \<Longrightarrow> AList.update k v al = al @ [(k, v)]"
  by (induction al) auto

lemma remove1_filter: "distinct xs \<Longrightarrow> remove1 x xs = filter (\<lambda>y. y \<noteq> x) xs"
  by (simp add: distinct_remove1_removeAll removeAll_filter_not_eq eq_commute)

lemma recoger_distinct:
  "distinct (map fst s) \<Longrightarrow> distinct enf \<Longrightarrow>
     (\<And>nv. nv \<in> set s \<Longrightarrow> fst nv \<in> set recognised \<Longrightarrow> fst nv \<in> set enf) \<Longrightarrow>
     fst ` set s \<inter> fst ` set ev = {} \<Longrightarrow>
     recoger s (ev, enf) =
       Inr (ev @ filter (\<lambda>nv. fst nv \<in> set recognised) s,
            filter (\<lambda>v. v \<notin> fst ` set (filter (\<lambda>nv. fst nv \<in> set recognised) s)) enf)"
proof (induction s arbitrary: ev enf)
  case Nil
  then show ?case by simp
next
  case (Cons nv s)
  show ?case
  proof (cases "fst nv \<in> set recognised")
    case True
    then have mem: "fst nv \<in> set enf" using Cons.prems(3) by simp
    have new: "fst nv \<notin> fst ` set ev" using Cons.prems(4) by auto
    have step: "recoger (nv # s) (ev, enf) =
                  recoger s (ev @ [(fst nv, snd nv)], filter (\<lambda>y. y \<noteq> fst nv) enf)"
      using True mem by (simp add: update_new [OF new] remove1_filter [OF Cons.prems(2)])
    have "recoger s (ev @ [(fst nv, snd nv)], filter (\<lambda>y. y \<noteq> fst nv) enf) =
            Inr ((ev @ [(fst nv, snd nv)]) @ filter (\<lambda>nv. fst nv \<in> set recognised) s,
                 filter (\<lambda>v. v \<notin> fst ` set (filter (\<lambda>nv. fst nv \<in> set recognised) s))
                        (filter (\<lambda>y. y \<noteq> fst nv) enf))"
    proof (rule Cons.IH)
      show "distinct (map fst s)" using Cons.prems(1) by simp
      show "distinct (filter (\<lambda>y. y \<noteq> fst nv) enf)" using Cons.prems(2) by simp
      show "fst ` set s \<inter> fst ` set (ev @ [(fst nv, snd nv)]) = {}"
        using Cons.prems(1,4) by auto
      fix x assume "x \<in> set s" "fst x \<in> set recognised"
      then show "fst x \<in> set (filter (\<lambda>y. y \<noteq> fst nv) enf)"
        using Cons.prems(1,3) by (auto simp: image_iff)
    qed
    also have "filter (\<lambda>v. v \<notin> fst ` set (filter (\<lambda>nv. fst nv \<in> set recognised) s))
                      (filter (\<lambda>y. y \<noteq> fst nv) enf) =
               filter (\<lambda>v. v \<notin> fst ` set (filter (\<lambda>nv. fst nv \<in> set recognised) (nv # s))) enf"
      using True by (auto intro: filter_cong)
    finally have res: "recoger s (ev @ [(fst nv, snd nv)], filter (\<lambda>y. y \<noteq> fst nv) enf) =
            Inr ((ev @ [(fst nv, snd nv)]) @ filter (\<lambda>nv. fst nv \<in> set recognised) s,
                 filter (\<lambda>v. v \<notin> fst ` set (filter (\<lambda>nv. fst nv \<in> set recognised) (nv # s))) enf)" .
    have "(ev @ [(fst nv, snd nv)]) @ filter (\<lambda>nv. fst nv \<in> set recognised) s =
          ev @ filter (\<lambda>nv. fst nv \<in> set recognised) (nv # s)"
      using True by simp
    then show ?thesis by (simp only: step res)
  next
    case False
    have "recoger s (ev, enf) =
            Inr (ev @ filter (\<lambda>nv. fst nv \<in> set recognised) s,
                 filter (\<lambda>v. v \<notin> fst ` set (filter (\<lambda>nv. fst nv \<in> set recognised) s)) enf)"
      by (rule Cons.IH) (use Cons.prems in auto)
    then show ?thesis using False by simp
  qed
qed

lemma recoger_dict:
  assumes "distinct (map fst sintomas)"
  shows "recoger sintomas ([], enfermedades0) =
           Inr (filter (\<lambda>nv. fst nv \<in> set recognised) sintomas,
                filter (\<lambda>v. v \<notin> fst ` set sintomas) enfermedades0)"
proof -
  have same: "set recognised = set enfermedades0"
    by (auto simp: recognised_def enfermedades0_def)
  have "recoger sintomas ([], enfermedades0) =
          Inr ([] @ filter (\<lambda>nv. fst nv \<in> set recognised) sintomas,
               filter (\<lambda>v. v \<notin> fst ` set (filter (\<lambda>nv. fst nv \<in> set recognised) sintomas))
                      enfermedades0)"
    by (rule recoger_distinct [OF assms]) (simp_all add: same, simp add: enfermedades0_def)
  moreover have "filter (\<lambda>v. v \<notin> fst ` set (filter (\<lambda>nv. fst nv \<in> set recognised) sintomas))
                        enfermedades0 =
                 filter (\<lambda>v. v \<notin> fst ` set sintomas) enfermedades0"
    by (rule filter_cong [OF refl]) (auto simp: same)
  ultimately show ?thesis by simp
qed

lemma consultar_Nil [simp]: "consultar m ev [] = Inr []"
  by (simp add: consultar_def)

lemma consultar_Cons [simp]:
  "consultar m ev (enf # rest) =
     (case query m [enf] ev of
        Inl e \<Rightarrow> Inl e
      | Inr resultado \<Rightarrow>
          (case consultar m ev rest of
             Inl e \<Rightarrow> Inl e
           | Inr diagnostico \<Rightarrow> Inr ((enf, weights resultado) # diagnostico)))"
  by (simp add: consultar_def query_values_def split: sum.splits)

lemma diagnosticar_pgmpy_unfold:
  "diagnosticar_pgmpy modelo sintomas =
     (case recoger sintomas ([], enfermedades0) of
        Inl e \<Rightarrow> None
      | Inr (evidencias, enfermedades) \<Rightarrow>
          (case check_model modelo of
             Inl e \<Rightarrow> None
           | Inr _ \<Rightarrow>
               (case consultar (to_model modelo) evidencias enfermedades of
                  Inl e \<Rightarrow> None
                | Inr diagnostico \<Rightarrow> Some diagnostico)))"
  by (simp add: diagnosticar_pgmpy_def diagnosticar_pgmpy_con_def VariableElimination_def
      consultar_def split: sum.splits prod.splits)

lemma consultar_con_Inr_iff:
  "consultar_con consulta ev enf = Inr d \<longleftrightarrow>
     list_all2 (\<lambda>entry x. fst entry = x \<and> consulta [x] ev = Inr (snd entry)) d enf"
proof (induction enf arbitrary: d)
  case Nil
  show ?case by auto
next
  case step: (Cons x enf)
  show ?case
  proof (cases d)
    case Nil
    then show ?thesis by (simp split: sum.splits)
  next
    case (Cons entry d')
    have "consultar_con consulta ev (x # enf) = Inr (entry # d') \<longleftrightarrow>
            fst entry = x \<and> consulta [x] ev = Inr (snd entry) \<and>
            consultar_con consulta ev enf = Inr d'"
      by (cases entry) (auto split: sum.splits)
    then show ?thesis by (simp only: Cons step.IH [of d'] list_all2_Cons conj_assoc)
  qed
qed

lemma diagnosticar_pgmpy_con_Some_iff:
  assumes "recoger sintomas ([], enfermedades0) = Inr (ev, enf)"
  shows "diagnosticar_pgmpy_con crear_motor consulta modelo sintomas = Some d \<longleftrightarrow>
           (\<exists>infer. crear_motor modelo = Inr infer \<and>
              list_all2 (\<lambda>entry x. fst entry = x \<and> consulta infer [x] ev = Inr (snd entry)) d enf)"
proof (cases "crear_motor modelo")
  case (Inl e)
  then show ?thesis by (simp add: diagnosticar_pgmpy_con_def assms)
next
  case (Inr infer)
  have "diagnosticar_pgmpy_con crear_motor consulta modelo sintomas = Some d \<longleftrightarrow>
          consultar_con (consulta infer) ev enf = Inr d"
    by (simp add: diagnosticar_pgmpy_con_def assms Inr split: sum.splits)
  then show ?thesis by (simp only: consultar_con_Inr_iff Inr sum.inject ex_simps simp_thms)
qed

lemma query_values_Inr_iff:
  "query_values m targets ev = Inr v \<longleftrightarrow> (\<exists>r. query m targets ev = Inr r \<and> v = weights r)"
  by (cases "query m targets ev") (auto simp: query_values_def)

lemma diagnosticar_pgmpy_Some_iff:
  assumes "recoger sintomas ([], enfermedades0) = Inr (ev, enf)"
  shows "diagnosticar_pgmpy modelo sintomas = Some d \<longleftrightarrow>
           check_model modelo = Inr () \<and>
           list_all2 (\<lambda>entry x. fst entry = x \<and>
                        (\<exists>r. query (to_model modelo) [x] ev = Inr r \<and> snd entry = weights r)) d enf"
proof (cases "check_model modelo")
  case (Inl e)
  then show ?thesis
    by (simp add: diagnosticar_pgmpy_def diagnosticar_pgmpy_con_Some_iff [OF assms]
        VariableElimination_def)
next
  case (Inr u)
  then have "VariableElimination modelo = Inr (to_model modelo)"
    by (simp add: VariableElimination_def)
  then show ?thesis
    using Inr
    by (simp add: diagnosticar_pgmpy_def diagnosticar_pgmpy_con_Some_iff [OF assms]
        query_values_Inr_iff)
qed

lemma consultar_keys: "consultar m ev enf = Inr d \<Longrightarrow> map fst d = enf"
  by (induction enf arbitrary: d) (auto split: sum.splits)

lemma consultar_succeeds:
  "(\<And>x. x \<in> set enf \<Longrightarrow> \<exists>r. query m [x] ev = Inr r) \<Longrightarrow> \<exists>d. consultar m ev enf = Inr d"
proof (induction enf)
  case Nil
  show ?case by simp
next
  case (Cons x enf)
  from Cons.prems [of x] obtain r where "query m [x] ev = Inr r" by auto
  moreover from Cons obtain d where "consultar m ev enf = Inr d" by auto
  ultimately show ?case by simp
qed

lemma restrict_step_in:
  assumes "n \<in> K" and "map_of s n = None"
  shows "(\<lambda>k. if k \<in> K then (case map_of s k of None \<Rightarrow> (ev(n \<mapsto> v)) k | Some w \<Rightarrow> Some w)
              else (ev(n \<mapsto> v)) k) =
         (\<lambda>k. if k \<in> K then (case map_of ((n, v) # s) k of None \<Rightarrow> ev k | Some w \<Rightarrow> Some w)
              else ev k)"
  using assms by (auto simp: fun_eq_iff split: option.splits)

lemma restrict_step_out:
  assumes "n \<notin> K"
  shows "(\<lambda>k. if k \<in> K then (case map_of s k of None \<Rightarrow> ev k | Some w \<Rightarrow> Some w) else ev k) =
         (\<lambda>k. if k \<in> K then (case map_of ((n, v) # s) k of None \<Rightarrow> ev k | Some w \<Rightarrow> Some w)
              else ev k)"
  using assms by (auto simp: fun_eq_iff)

lemma preparar_dict:
  "distinct (map fst s) \<Longrightarrow>
     preparar s ev =
       (\<lambda>k. if k \<in> {''Fiebre'', ''Tos'', ''Dolor_cabeza''}
             then (case map_of s k of None \<Rightarrow> ev k | Some v \<Rightarrow> Some v)
             else ev k)"
proof (induction s arbitrary: ev)
  case Nil
  show ?case by (simp add: fun_eq_iff)
next
  case (Cons nv s)
  obtain n v where nv: "nv = (n, v)" by (cases nv)
  have d: "distinct (map fst s)" and new: "map_of s n = None"
    using Cons.prems by (auto simp: nv map_of_eq_None_iff)
  let ?K = "{''Fiebre'', ''Tos'', ''Dolor_cabeza''}"
  consider (f) "n = ''Fiebre''" | (t) "n \<noteq> ''Fiebre''" "n = ''Tos''"
    | (d) "n \<noteq> ''Fiebre''" "n \<noteq> ''Tos''" "n = ''Dolor_cabeza''"
    | (o) "n \<noteq> ''Fiebre''" "n \<noteq> ''Tos''" "n \<noteq> ''Dolor_cabeza''"
    by blast
  then show ?case
  proof cases
    case f
    have "preparar (nv # s) ev = preparar s (ev(n \<mapsto> v))" by (simp add: nv f)
    also note Cons.IH [OF d]
    also note restrict_step_in [where K = ?K, OF _ new]
    finally show ?thesis by (simp only: nv f insertI1 simp_thms)
  next
    case t
    have "preparar (nv # s) ev = preparar s (ev(n \<mapsto> v))" using t(1) by (simp add: nv t(2))
    also note Cons.IH [OF d]
    also note restrict_step_in [where K = ?K, OF _ new]
    finally show ?thesis by (simp only: nv t(2) insertI1 insertI2 simp_thms)
  next
    case d
    have "preparar (nv # s) ev = preparar s (ev(n \<mapsto> v))" using d(1,2) by (simp add: nv d(3))
    also note Cons.IH [OF \<open>distinct (map fst s)\<close>]
    also note restrict_step_in [where K = ?K, OF _ new]
    finally show ?thesis by (simp only: nv d(3) insertI1 insertI2 simp_thms)
  next
    case o
    have "preparar (nv # s) ev = preparar s ev" using o by (simp add: nv)
    also note Cons.IH [OF d]
    also have "n \<notin> ?K" using o by simp
    note restrict_step_out [where K = ?K, OF this]
    finally show ?thesis by (simp only: nv)
  qed
qed

section \<open>The test case of the scripts: fever, cough, no headache\<close>

lemma check_model_red_pgmpy: "check_model red_pgmpy = Inr ()"
  by code_simp

lemma check_model_validate: "check_model modelo = Inr () \<Longrightarrow> validate (to_model modelo) = Inr ()"
  by (auto simp: check_model_def split: if_splits)

lemma validate_red_pgmpy: "validate (to_model red_pgmpy) = Inr ()"
  using check_model_red_pgmpy by (rule check_model_validate)

lemma var_names_red_pgmpy:
  "var_names (to_model red_pgmpy) = [''PG'', ''Gripe'', ''Neumonia'', ''Fiebre'', ''Tos'', ''Dolor_cabeza'']"
  by code_simp

lemma crear_red_pgmpy_ok: "crear_red_pgmpy = Inr red_pgmpy"
  by (simp add: crear_red_pgmpy_def check_model_red_pgmpy)

lemma gripe_states_pgmpy: "lookup (variables (to_model red_pgmpy)) ''Gripe'' = Inr [Si, No]"
  by code_simp

lemma gripe_index_pgmpy: "state_index (variables (to_model red_pgmpy)) ''Gripe'' Si = Some 0"
  by code_simp

lemma query_gripe_caso_1:
  "query (to_model red_pgmpy) [''Gripe''] caso_1 =
     Inr \<lparr>scope = [''Gripe''], weights = [2368 / 7065, 4697 / 7065]\<rparr>"
  by code_simp

lemma query_gripe_prior:
  "query (to_model red_pgmpy) [''Gripe''] [] = Inr \<lparr>scope = [''Gripe''], weights = [2 / 5, 3 / 5]\<rparr>"
  by code_simp

lemma query_pg_prior:
  "query (to_model red_pgmpy) [''PG''] [] = Inr \<lparr>scope = [''PG''], weights = [3 / 10, 2 / 5, 3 / 10]\<rparr>"
  by code_simp

lemma posterior_gripe_caso_1:
  "posterior (to_model red_pgmpy) ''Gripe'' caso_1 Si = Inr (2368 / 7065)"
  by (simp add: posterior_def query_gripe_caso_1 gripe_index_pgmpy)

lemma posterior_gripe_prior: "posterior (to_model red_pgmpy) ''Gripe'' [] Si = Inr (2 / 5)"
  by (simp add: posterior_def query_gripe_prior gripe_index_pgmpy)

lemma posterior_pomegranate_caso_1:
  "map_option (\<lambda>mp. posterior mp ''Gripe'' caso_1 Si) (pom_model crear_red_bayesiana) =
     Some (Inr (636 / 2005))"
  by code_simp

lemma posterior_pymc_caso_1: "posterior crear_modelo_bayesiano ''Gripe'' caso_1 Si = Inr (636 / 2005)"
  by code_simp

lemma prior_pomegranate:
  "map_option (\<lambda>mp. posterior mp ''Gripe'' [] Si) (pom_model crear_red_bayesiana) = Some (Inr (2 / 5))"
  by code_simp

lemma prior_pymc: "posterior crear_modelo_bayesiano ''Gripe'' [] Si = Inr (2 / 5)"
  by code_simp

text \<open>
  C1 (as stated, refuted). The claim wants the posterior of Gripe = S-i-acute under the
  evidence Fiebre = S-i-acute, Tos = S-i-acute, Dolor_cabeza = No to be strictly greater
  than the prior of Gripe = S-i-acute. On the tables of the pgmpy script the posterior is
  2368/7065 (about 0.335) and the prior is 2/5, so the posterior is not greater.
\<close>

theorem C1_posterior_not_above_prior:
  "posterior (to_model red_pgmpy) ''Gripe'' caso_1 Si = Inr (2368 / 7065) \<and>
   posterior (to_model red_pgmpy) ''Gripe'' [] Si = Inr (2 / 5) \<and>
   \<not> ((2 / 5 :: rat) < 2368 / 7065)"
  by (simp add: posterior_gripe_caso_1 posterior_gripe_prior)

text \<open>
  C1 (amended). For the six-variable model of the pgmpy script, which passes validation,
  the query for Gripe under the evidence Fiebre = S-i-acute, Tos = S-i-acute,
  Dolor_cabeza = No returns a factor over Gripe alone with two weights, for the states
  S-i-acute and No in this order, that sum to 1; the weight of S-i-acute is positive and
  strictly below the prior 2/5 that the query without evidence returns. The same holds on
  the tables of the pomegranate and of the PyMC script: the posterior of Gripe = S-i-acute
  is below the prior 2/5 there too.
\<close>

theorem C1_posterior_below_prior:
  "crear_red_pgmpy = Inr red_pgmpy \<and>
   lookup (variables (to_model red_pgmpy)) ''Gripe'' = Inr [Si, No] \<and>
   (\<exists>p q. query (to_model red_pgmpy) [''Gripe''] caso_1 =
             Inr \<lparr>scope = [''Gripe''], weights = [p, q]\<rparr> \<and>
          p + q = 1 \<and> 0 < p \<and> p < 2 / 5) \<and>
   query (to_model red_pgmpy) [''Gripe''] [] =
     Inr \<lparr>scope = [''Gripe''], weights = [2 / 5, 3 / 5]\<rparr> \<and>
   (\<exists>p. map_option (\<lambda>mp. posterior mp ''Gripe'' caso_1 Si) (pom_model crear_red_bayesiana) =
          Some (Inr p) \<and> p < 2 / 5) \<and>
   map_option (\<lambda>mp. posterior mp ''Gripe'' [] Si) (pom_model crear_red_bayesiana) = Some (Inr (2 / 5)) \<and>
   (\<exists>p. posterior crear_modelo_bayesiano ''Gripe'' caso_1 Si = Inr p \<and> p < 2 / 5) \<and>
   posterior crear_modelo_bayesiano ''Gripe'' [] Si = Inr (2 / 5)"
proof -
  have a: "\<exists>p q. query (to_model red_pgmpy) [''Gripe''] caso_1 =
             Inr \<lparr>scope = [''Gripe''], weights = [p, q]\<rparr> \<and> p + q = 1 \<and> 0 < p \<and> p < 2 / 5"
    by (rule exI [of _ "2368 / 7065"], rule exI [of _ "4697 / 7065"])
       (simp add: query_gripe_caso_1)
  have b: "\<exists>p. map_option (\<lambda>mp. posterior mp ''Gripe'' caso_1 Si) (pom_model crear_red_bayesiana) =
          Some (Inr p) \<and> p < 2 / 5"
    by (rule exI [of _ "636 / 2005"]) (simp add: posterior_pomegranate_caso_1)
  have c: "\<exists>p. posterior crear_modelo_bayesiano ''Gripe'' caso_1 Si = Inr p \<and> p < 2 / 5"
    by (rule exI [of _ "636 / 2005"]) (simp add: posterior_pymc_caso_1)
  show ?thesis
    by (intro conjI crear_red_pgmpy_ok gripe_states_pgmpy a query_gripe_prior b prior_pomegranate
        c prior_pymc)
qed

section \<open>Local normalisation\<close>

lemma validate_locally_normalized:
  "validate m = Inr () \<Longrightarrow> vf \<in> set (cpts m) \<Longrightarrow>
     pa \<in> set (parent_assignments (variables m) (snd vf)) \<Longrightarrow>
     \<bar>slice_sum (variables m) (snd vf) pa - 1\<bar> \<le> 1 / 1000000"
  using validate_normalized [of m vf pa] by (simp add: tolerance_def)

lemma engine_needs_validation: "engine m order targets ev = Inr r \<Longrightarrow> validate m = Inr ()"
  by (auto simp: engine_def query_ok_def split: if_splits)

lemma diagnosticar_pgmpy_checked:
  "diagnosticar_pgmpy modelo sintomas = Some d \<Longrightarrow> check_model modelo = Inr ()"
  by (auto simp: diagnosticar_pgmpy_unfold split: sum.splits prod.splits)

lemma columns_red_pgmpy:
  "list_all (\<lambda>c. list_all (\<lambda>s. s = 1) (column_sums c)) (bn_cpds red_pgmpy)"
  by code_simp

lemma rows_crear_red_bayesiana:
  "list_all (\<lambda>nd. list_all (\<lambda>s. s = 1) (parent_sums (snd nd))) (pom_states crear_red_bayesiana)"
  by code_simp

lemma validation_gates:
  "(validate m = Inr () \<longrightarrow>
      (\<forall>vf\<in>set (cpts m). \<forall>pa\<in>set (parent_assignments (variables m) (snd vf)).
          \<bar>slice_sum (variables m) (snd vf) pa - 1\<bar> \<le> 1 / 1000000)) \<and>
   (engine m order targets ev = Inr r \<longrightarrow> validate m = Inr ()) \<and>
   (diagnosticar_pgmpy modelo sintomas = Some d \<longrightarrow> validate (to_model modelo) = Inr ())"
  using validate_locally_normalized [of m] engine_needs_validation [of m order targets ev r]
    diagnosticar_pgmpy_checked [of modelo sintomas d] check_model_validate [of modelo]
  by blast

text \<open>
  C2. Every CPT of a model that passes validation sums to 1 over the child's states, within
  1e-6, at every parent assignment; the engine answers a query only for a model that
  passes validation, and \<open>diagnosticar_pgmpy\<close> returns a diagnosis only for a
  network that passes the check. \<open>crear_red_pgmpy\<close> asserts \<open>check_model\<close>
  and its network passes. On the tables of the pgmpy and of the pomegranate script every
  such sum is exactly 1.
\<close>

theorem C2_local_normalization:
  "(validate m = Inr () \<longrightarrow>
      (\<forall>vf\<in>set (cpts m). \<forall>pa\<in>set (parent_assignments (variables m) (snd vf)).
          \<bar>slice_sum (variables m) (snd vf) pa - 1\<bar> \<le> 1 / 1000000)) \<and>
   (engine m order targets ev = Inr r \<longrightarrow> validate m = Inr ()) \<and>
   (diagnosticar_pgmpy modelo sintomas = Some d \<longrightarrow> validate (to_model modelo) = Inr ()) \<and>
   crear_red_pgmpy = Inr red_pgmpy \<and> check_model red_pgmpy = Inr () \<and>
   list_all (\<lambda>c. list_all (\<lambda>s. s = 1) (column_sums c)) (bn_cpds red_pgmpy) \<and>
   list_all (\<lambda>nd. list_all (\<lambda>s. s = 1) (parent_sums (snd nd))) (pom_states crear_red_bayesiana)"
  using validation_gates [of m order targets ev r modelo sintomas d]
    crear_red_pgmpy_ok check_model_red_pgmpy columns_red_pgmpy rows_crear_red_bayesiana
  by (simp only: simp_thms)

theorem C2_local_normalization_witness:
  "validate (to_model red_pgmpy) = Inr () \<and>
   query (to_model red_pgmpy) [''PG''] [] = Inr \<lparr>scope = [''PG''], weights = [3 / 10, 2 / 5, 3 / 10]\<rparr> \<and>
   list_all (\<lambda>vf. list_all (\<lambda>pa. \<bar>slice_sum (variables (to_model red_pgmpy)) (snd vf) pa - 1\<bar> \<le> 1 / 1000000)
                            (parent_assignments (variables (to_model red_pgmpy)) (snd vf)))
            (cpts (to_model red_pgmpy))"
proof -
  have "\<forall>vf\<in>set (cpts (to_model red_pgmpy)).
          \<forall>pa\<in>set (parent_assignments (variables (to_model red_pgmpy)) (snd vf)).
            \<bar>slice_sum (variables (to_model red_pgmpy)) (snd vf) pa - 1\<bar> \<le> 1 / 1000000"
    using C2_local_normalization [of "to_model red_pgmpy"] validate_red_pgmpy by blast
  then show ?thesis
    by (simp only: validate_red_pgmpy query_pg_prior list_all_iff simp_thms)
qed

section \<open>Queries without evidence\<close>

lemma total_mass_red_pgmpy: "evidence_mass (to_model red_pgmpy) [] = 1"
  by code_simp

lemma query_ok_no_evidence:
  "validate m = Inr () \<Longrightarrow> x \<in> set (var_names m) \<Longrightarrow> query_ok m [x] []"
  by (simp add: query_ok_def)

lemma prior_by_enumeration:
  assumes "validate m = Inr ()" and "x \<in> set (var_names m)"
  shows "\<exists>r. query m [x] [] = Inr r \<and> enumerate m [x] [] = Inr r \<and> scope r = [x] \<and>
             sum_list (weights r) = 1"
proof -
  have q: "query m [x] [] = enumerate m [x] []"
    by (rule query_single [OF query_ok_no_evidence [OF assms]]) (simp add: valid_evidence_def)
  have "evidence_mass m [] \<noteq> 0" using total_mass_pos [OF assms(1)] by simp
  then obtain r where r: "enumerate m [x] [] = Inr r" by (simp add: enumerate_def)
  have "sum_list (weights r) = 1"
    using q r engine_Inr_sum [of m "plan_order m [x] []" "[x]" "[]" r] by (simp add: query_def)
  then show ?thesis using q r enumerate_scope [OF r] by simp
qed

text \<open>
  C3. For every variable of a model that passes validation, the query with that one target
  and no evidence succeeds and returns exactly the factor that direct enumeration gives:
  the product of all CPTs summed over all other variables, divided by the total over all
  variables; its weights sum to 1. For the network of the pgmpy script that total is 1, and
  the query for PG returns its declared prior 0.3, 0.4, 0.3.
\<close>

theorem C3_prior_by_enumeration:
  assumes "validate m = Inr ()" and "x \<in> set (var_names m)"
  shows "(\<exists>r. query m [x] [] = Inr r \<and> enumerate m [x] [] = Inr r \<and> scope r = [x] \<and>
              sum_list (weights r) = 1) \<and>
         evidence_mass (to_model red_pgmpy) [] = 1 \<and>
         query (to_model red_pgmpy) [''PG''] [] =
           Inr \<lparr>scope = [''PG''], weights = [0.3, 0.4, 0.3]\<rparr>"
  using prior_by_enumeration [OF assms] total_mass_red_pgmpy query_pg_prior by simp

theorem C3_prior_by_enumeration_witness:
  "validate (to_model red_pgmpy) = Inr () \<and>
   ''Gripe'' \<in> set (var_names (to_model red_pgmpy)) \<and>
   enumerate (to_model red_pgmpy) [''Gripe''] [] =
     Inr \<lparr>scope = [''Gripe''], weights = [2 / 5, 3 / 5]\<rparr>"
proof -
  have mem: "''Gripe'' \<in> set (var_names (to_model red_pgmpy))"
    by (simp add: var_names_red_pgmpy)
  from C3_prior_by_enumeration [OF validate_red_pgmpy mem]
  obtain r where "query (to_model red_pgmpy) [''Gripe''] [] = Inr r"
    and "enumerate (to_model red_pgmpy) [''Gripe''] [] = Inr r" by blast
  then show ?thesis using mem by (simp add: validate_red_pgmpy query_gripe_prior)
qed

section \<open>Evidence of probability zero\<close>

lemma consultar_con_all_answered:
  "consultar_con consulta ev enf = Inr d \<Longrightarrow> x \<in> set enf \<Longrightarrow> \<exists>v. consulta [x] ev = Inr v"
  by (induction enf arbitrary: d) (auto split: sum.splits)

lemma diagnosticar_pgmpy_con_motor_raises:
  "crear_motor modelo = Inl e \<Longrightarrow>
     diagnosticar_pgmpy_con crear_motor consulta modelo sintomas = None"
  by (simp add: diagnosticar_pgmpy_con_def split: sum.splits prod.splits)

lemma diagnosticar_pgmpy_con_query_raises:
  assumes "recoger sintomas ([], enfermedades0) = Inr (ev, enf)"
      and "crear_motor modelo = Inr infer" and "x \<in> set enf" and "consulta infer [x] ev = Inl e"
  shows "diagnosticar_pgmpy_con crear_motor consulta modelo sintomas = None"
proof (cases "consultar_con (consulta infer) ev enf")
  case (Inl e')
  then show ?thesis by (simp add: diagnosticar_pgmpy_con_def assms(1,2))
next
  case (Inr d)
  from consultar_con_all_answered [OF Inr assms(3)] assms(4) show ?thesis by simp
qed

lemma diagnosticar_pgmpy_con_values:
  assumes "recoger sintomas ([], enfermedades0) = Inr (ev, enf)"
      and "crear_motor modelo = Inr infer"
      and "\<And>x. x \<in> set enf \<Longrightarrow> consulta infer [x] ev = Inr (valores x)"
  shows "diagnosticar_pgmpy_con crear_motor consulta modelo sintomas =
           Some (map (\<lambda>x. (x, valores x)) enf)"
proof -
  have "list_all2 (\<lambda>entry x. fst entry = x \<and> consulta infer [x] ev = Inr (snd entry))
          (map (\<lambda>x. (x, valores x)) enf) enf"
    using assms(3) by (simp add: list_all2_map1 list_all2_same)
  then show ?thesis
    using diagnosticar_pgmpy_con_Some_iff [OF assms(1), of crear_motor consulta modelo
        "map (\<lambda>x. (x, valores x)) enf"] assms(2)
    by simp
qed

lemma diagnosticar_predict_raises:
  "predict_proba (preparar sintomas Map.empty) = Inl e \<Longrightarrow> diagnosticar predict_proba sintomas = None"
  by (simp add: diagnosticar_def)

lemma check_model_red_tos_segura: "check_model red_tos_segura = Inr ()"
  by code_simp

lemma recoger_no_tos:
  "recoger [(''Tos'', No)] ([], enfermedades0) =
     Inr ([(''Tos'', No)], [''PG'', ''Gripe'', ''Neumonia'', ''Fiebre'', ''Dolor_cabeza''])"
  by code_simp

lemma mass_no_tos: "evidence_mass (to_model red_tos_segura) [(''Tos'', No)] = 0"
  by code_simp

lemma no_tos_falla:
  "diagnosticar_pgmpy_con motor_directo consulta_falla red_tos_segura [(''Tos'', No)] = None"
  by code_simp

lemma no_tos_nan:
  "diagnosticar_pgmpy_con motor_directo consulta_nan red_tos_segura [(''Tos'', No)] =
     Some [(''PG'', [''nan'', ''nan'']), (''Gripe'', [''nan'', ''nan'']),
           (''Neumonia'', [''nan'', ''nan'']), (''Fiebre'', [''nan'', ''nan'']),
           (''Dolor_cabeza'', [''nan'', ''nan''])]"
  by code_simp

text \<open>
  C5 (as stated, refuted). In the network with a certain cough, which passes the check,
  the state No of Tos has weight 0 under both states of its parent, and observing no cough
  has probability zero. Whatever the library does at this evidence,
  no error reaches the caller of \<open>diagnosticar_pgmpy\<close>: with a query that raises
  \<open>DegenerateFactorError\<close> the caller receives \<open>None\<close>, and with a query
  that returns not-a-number arrays the caller receives a dictionary of these arrays.
\<close>

theorem C5_error_is_swallowed:
  "cpd_values cpd_tos_segura = [[1, 1], [0, 0]] \<and>
   check_model red_tos_segura = Inr () \<and>
   evidence_mass (to_model red_tos_segura) [(''Tos'', No)] = 0 \<and>
   diagnosticar_pgmpy_con motor_directo consulta_falla red_tos_segura [(''Tos'', No)] = None \<and>
   diagnosticar_pgmpy_con motor_directo consulta_nan red_tos_segura [(''Tos'', No)] =
     Some [(''PG'', [''nan'', ''nan'']), (''Gripe'', [''nan'', ''nan'']),
           (''Neumonia'', [''nan'', ''nan'']), (''Fiebre'', [''nan'', ''nan'']),
           (''Dolor_cabeza'', [''nan'', ''nan''])]"
  by (intro conjI check_model_red_tos_segura mass_no_tos no_tos_falla no_tos_nan)
     (simp add: cpd_tos_segura_def)

text \<open>
  C5 (amended). \<open>diagnosticar_pgmpy\<close> never passes an error to its caller, for
  any evidence and any behaviour of the library, so also for evidence of probability zero:
  if collecting the evidence raises, if building the inference object raises, or if the
  query for one of the variables to diagnose raises (a \<open>DegenerateFactorError\<close>
  or anything else), the function returns \<open>None\<close>; if every query returns values,
  the function returns the dictionary of exactly these values. The pomegranate \<open>diagnosticar\<close> likewise returns
  \<open>None\<close> when \<open>predict_proba\<close> raises.
\<close>

theorem C5_no_error_reaches_caller:
  "(crear_motor modelo = Inl e \<longrightarrow>
      diagnosticar_pgmpy_con crear_motor consulta modelo sintomas = None) \<and>
   (recoger sintomas ([], enfermedades0) = Inr (ev, enf) \<and> crear_motor modelo = Inr infer \<and>
    x \<in> set enf \<and> consulta infer [x] ev = Inl e \<longrightarrow>
      diagnosticar_pgmpy_con crear_motor consulta modelo sintomas = None) \<and>
   (recoger sintomas ([], enfermedades0) = Inr (ev, enf) \<and> crear_motor modelo = Inr infer \<and>
    (\<forall>x\<in>set enf. consulta infer [x] ev = Inr (valores x)) \<longrightarrow>
      diagnosticar_pgmpy_con crear_motor consulta modelo sintomas =
        Some (map (\<lambda>x. (x, valores x)) enf)) \<and>
   (predict_proba (preparar sintomas Map.empty) = Inl e' \<longrightarrow>
      diagnosticar predict_proba sintomas = None) \<and>
   (recoger sintomas ([], enfermedades0) = Inl e'' \<longrightarrow>
      diagnosticar_pgmpy_con crear_motor consulta modelo sintomas = None)"
proof (intro conjI impI)
  assume "recoger sintomas ([], enfermedades0) = Inl e''"
  then show "diagnosticar_pgmpy_con crear_motor consulta modelo sintomas = None"
    by (simp add: diagnosticar_pgmpy_con_def)
next
  assume "crear_motor modelo = Inl e"
  then show "diagnosticar_pgmpy_con crear_motor consulta modelo sintomas = None"
    by (rule diagnosticar_pgmpy_con_motor_raises)
next
  assume "recoger sintomas ([], enfermedades0) = Inr (ev, enf) \<and> crear_motor modelo = Inr infer \<and>
          x \<in> set enf \<and> consulta infer [x] ev = Inl e"
  then show "diagnosticar_pgmpy_con crear_motor consulta modelo sintomas = None"
    by (elim conjE) (rule diagnosticar_pgmpy_con_query_raises)
next
  assume a: "recoger sintomas ([], enfermedades0) = Inr (ev, enf) \<and> crear_motor modelo = Inr infer \<and>
          (\<forall>x\<in>set enf. consulta infer [x] ev = Inr (valores x))"
  from a have r: "recoger sintomas ([], enfermedades0) = Inr (ev, enf)" by (rule conjunct1)
  from a have m: "crear_motor modelo = Inr infer" by (rule conjunct1 [OF conjunct2])
  from a have v: "\<forall>x\<in>set enf. consulta infer [x] ev = Inr (valores x)"
    by (rule conjunct2 [OF conjunct2])
  show "diagnosticar_pgmpy_con crear_motor consulta modelo sintomas =
               Some (map (\<lambda>x. (x, valores x)) enf)"
    by (rule diagnosticar_pgmpy_con_values
          [where crear_motor = crear_motor and modelo = modelo and infer = infer, OF r m])
       (rule bspec [OF v], assumption)
next
  assume "predict_proba (preparar sintomas Map.empty) = Inl e'"
  then show "diagnosticar predict_proba sintomas = None"
    by (rule diagnosticar_predict_raises)
qed

theorem C5_no_error_reaches_caller_witness:
  "recoger [(''Tos'', No)] ([], enfermedades0) =
     Inr ([(''Tos'', No)], [''PG'', ''Gripe'', ''Neumonia'', ''Fiebre'', ''Dolor_cabeza'']) \<and>
   motor_directo red_tos_segura = Inr red_tos_segura \<and>
   ''PG'' \<in> set [''PG'', ''Gripe'', ''Neumonia'', ''Fiebre'', ''Dolor_cabeza''] \<and>
   consulta_falla red_tos_segura [''PG''] [(''Tos'', No)] = Inl DegenerateFactorError \<and>
   diagnosticar_pgmpy_con motor_directo consulta_falla red_tos_segura [(''Tos'', No)] = None \<and>
   list_all (\<lambda>x. consulta_nan red_tos_segura [x] [(''Tos'', No)] = Inr [''nan'', ''nan''])
     [''PG'', ''Gripe'', ''Neumonia'', ''Fiebre'', ''Dolor_cabeza''] \<and>
   diagnosticar_pgmpy_con motor_directo consulta_nan red_tos_segura [(''Tos'', No)] =
     Some (map (\<lambda>x. (x, [''nan'', ''nan'']))
             [''PG'', ''Gripe'', ''Neumonia'', ''Fiebre'', ''Dolor_cabeza''])"
proof -
  have m: "motor_directo red_tos_segura = Inr red_tos_segura" by (simp add: motor_directo_def)
  have x: "''PG'' \<in> set [''PG'', ''Gripe'', ''Neumonia'', ''Fiebre'', ''Dolor_cabeza'']" by simp
  have f: "consulta_falla red_tos_segura [''PG''] [(''Tos'', No)] = Inl DegenerateFactorError"
    by (simp add: consulta_falla_def)
  have n: "\<forall>x\<in>set [''PG'', ''Gripe'', ''Neumonia'', ''Fiebre'', ''Dolor_cabeza''].
             consulta_nan red_tos_segura [x] [(''Tos'', No)] = Inr [''nan'', ''nan'']"
    by (simp add: consulta_nan_def)
  have a: "diagnosticar_pgmpy_con motor_directo consulta_falla red_tos_segura [(''Tos'', No)] = None"
    by (rule C5_no_error_reaches_caller [of motor_directo red_tos_segura DegenerateFactorError
          consulta_falla "[(''Tos'', No)]" "[(''Tos'', No)]"
          "[''PG'', ''Gripe'', ''Neumonia'', ''Fiebre'', ''Dolor_cabeza'']" red_tos_segura "''PG''",
          THEN conjunct2, THEN conjunct1, rule_format])
       (intro conjI recoger_no_tos m x f)
  have b: "diagnosticar_pgmpy_con motor_directo consulta_nan red_tos_segura [(''Tos'', No)] =
             Some (map (\<lambda>x. (x, [''nan'', ''nan'']))
                     [''PG'', ''Gripe'', ''Neumonia'', ''Fiebre'', ''Dolor_cabeza''])"
    by (rule C5_no_error_reaches_caller [of motor_directo red_tos_segura DegenerateFactorError
          consulta_nan "[(''Tos'', No)]" "[(''Tos'', No)]"
          "[''PG'', ''Gripe'', ''Neumonia'', ''Fiebre'', ''Dolor_cabeza'']" red_tos_segura "''PG''"
          "\<lambda>x. [''nan'', ''nan'']",
          THEN conjunct2, THEN conjunct2, THEN conjunct1, rule_format])
       (intro conjI recoger_no_tos m n)
  have n': "list_all (\<lambda>x. consulta_nan red_tos_segura [x] [(''Tos'', No)] = Inr [''nan'', ''nan''])
              [''PG'', ''Gripe'', ''Neumonia'', ''Fiebre'', ''Dolor_cabeza'']"
    by (simp add: consulta_nan_def)
  show ?thesis by (intro conjI recoger_no_tos m x f a n' b)
qed

section \<open>Elimination order\<close>

text \<open>
  C6. For a model that passes validation, targets and evidence that form an admissible
  query, and any two elimination orders (each listing the variables to eliminate once), the
  engine fails in the same way or returns the same distribution: the same variables with the
  same weight at every assignment. With several targets the axes of the two factors may be
  in different order; with one target the two results are equal outright.
\<close>

theorem C6_order_independence:
  assumes "query_ok m targets ev" and "valid_evidence m ev"
      and "distinct o1" and "set o1 = set (to_eliminate m targets ev)"
      and "distinct o2" and "set o2 = set (to_eliminate m targets ev)"
  shows "same_result (variables m) (engine m o1 targets ev) (engine m o2 targets ev) \<and>
         (length targets = 1 \<longrightarrow> engine m o1 targets ev = engine m o2 targets ev)"
proof
  show "same_result (variables m) (engine m o1 targets ev) (engine m o2 targets ev)"
    by (rule engine_order_independent [OF assms])
  show "length targets = 1 \<longrightarrow> engine m o1 targets ev = engine m o2 targets ev"
  proof
    assume "length targets = 1"
    then obtain x where x: "targets = [x]" by (auto simp: length_Suc_conv)
    show "engine m o1 targets ev = engine m o2 targets ev"
      using engine_single [of m x ev o1] engine_single [of m x ev o2] assms by (simp add: x)
  qed
qed

lemma query_ok_red_pgmpy_gf:
  "query_ok (to_model red_pgmpy) [''Gripe'', ''Fiebre''] [(''Tos'', Si), (''Dolor_cabeza'', No)]"
  by (simp add: query_ok_def validate_red_pgmpy var_names_red_pgmpy)

lemma valid_evidence_red_pgmpy_td:
  "valid_evidence (to_model red_pgmpy) [(''Tos'', Si), (''Dolor_cabeza'', No)]"
  by code_simp

lemma to_eliminate_red_pgmpy_gf:
  "to_eliminate (to_model red_pgmpy) [''Gripe'', ''Fiebre''] [(''Tos'', Si), (''Dolor_cabeza'', No)] =
     [''PG'', ''Neumonia'']"
  by (simp add: to_eliminate_def var_names_red_pgmpy)

theorem C6_order_independence_witness:
  "query_ok (to_model red_pgmpy) [''Gripe'', ''Fiebre''] [(''Tos'', Si), (''Dolor_cabeza'', No)] \<and>
   valid_evidence (to_model red_pgmpy) [(''Tos'', Si), (''Dolor_cabeza'', No)] \<and>
   to_eliminate (to_model red_pgmpy) [''Gripe'', ''Fiebre''] [(''Tos'', Si), (''Dolor_cabeza'', No)] =
     [''PG'', ''Neumonia''] \<and>
   same_result (variables (to_model red_pgmpy))
     (engine (to_model red_pgmpy) [''PG'', ''Neumonia''] [''Gripe'', ''Fiebre'']
        [(''Tos'', Si), (''Dolor_cabeza'', No)])
     (engine (to_model red_pgmpy) [''Neumonia'', ''PG''] [''Gripe'', ''Fiebre'']
        [(''Tos'', Si), (''Dolor_cabeza'', No)])"
proof -
  have "same_result (variables (to_model red_pgmpy))
     (engine (to_model red_pgmpy) [''PG'', ''Neumonia''] [''Gripe'', ''Fiebre'']
        [(''Tos'', Si), (''Dolor_cabeza'', No)])
     (engine (to_model red_pgmpy) [''Neumonia'', ''PG''] [''Gripe'', ''Fiebre'']
        [(''Tos'', Si), (''Dolor_cabeza'', No)])"
    using C6_order_independence [OF query_ok_red_pgmpy_gf valid_evidence_red_pgmpy_td,
        of "[''PG'', ''Neumonia'']" "[''Neumonia'', ''PG'']"]
    by (simp add: to_eliminate_red_pgmpy_gf insert_commute)
  then show ?thesis
    by (simp only: query_ok_red_pgmpy_gf valid_evidence_red_pgmpy_td to_eliminate_red_pgmpy_gf
        simp_thms)
qed

section \<open>Strictly positive tables of the three scripts\<close>

lemma floor_red_pgmpy:
  "list_all (\<lambda>c. list_all (list_all (\<lambda>w. 1 / 10 \<le> w)) (cpd_values c)) (bn_cpds red_pgmpy)"
  by code_simp

lemma floor_crear_red_bayesiana:
  "list_all (\<lambda>nd. list_all (\<lambda>w. 1 / 10 \<le> w) (dist_weights (snd nd))) (pom_states crear_red_bayesiana)"
  by code_simp

lemma floor_crear_modelo_bayesiano:
  "list_all (\<lambda>vf. list_all (\<lambda>w. 1 / 10 \<le> w) (weights (snd vf))) (cpts crear_modelo_bayesiano)"
  by code_simp

lemma floor_attained: "1 / 10 \<in> set (concat (cpd_values cpd_fiebre))"
  by code_simp

lemma positive_red_pgmpy:
  "list_all (\<lambda>vf. list_all (\<lambda>w. 0 < w) (weights (snd vf))) (cpts (to_model red_pgmpy))"
  by code_simp

lemma symptom_states_red_pgmpy:
  "list_all (\<lambda>v. list_all (\<lambda>st. state_index (variables (to_model red_pgmpy)) v st \<noteq> None) [Si, No])
            [''Fiebre'', ''Tos'', ''Dolor_cabeza'']"
  by code_simp

lemma validate_crear_modelo_bayesiano: "validate crear_modelo_bayesiano = Inr ()"
  by code_simp

lemma positive_crear_modelo_bayesiano:
  "list_all (\<lambda>vf. list_all (\<lambda>w. 0 < w) (weights (snd vf))) (cpts crear_modelo_bayesiano)"
  by code_simp

lemma symptom_states_crear_modelo_bayesiano:
  "list_all (\<lambda>v. list_all (\<lambda>st. state_index (variables crear_modelo_bayesiano) v st \<noteq> None) [Si, No])
            [''Fiebre'', ''Tos'', ''Dolor_cabeza'']"
  by code_simp

lemma pom_model_ok:
  "(case pom_model crear_red_bayesiana of
      None \<Rightarrow> False
    | Some mp \<Rightarrow>
        validate mp = Inr () \<and>
        list_all (\<lambda>vf. list_all (\<lambda>w. 0 < w) (weights (snd vf))) (cpts mp) \<and>
        list_all (\<lambda>v. list_all (\<lambda>st. state_index (variables mp) v st \<noteq> None) [Si, No])
                 [''Fiebre'', ''Tos'', ''Dolor_cabeza''])"
  by code_simp

lemma sintomas_validos_evidence:
  assumes "sintomas_validos ev"
      and "list_all (\<lambda>v. list_all (\<lambda>st. state_index (variables m) v st \<noteq> None) [Si, No])
                    [''Fiebre'', ''Tos'', ''Dolor_cabeza'']"
  shows "valid_evidence m ev"
  unfolding valid_evidence_def list_all_iff
proof
  fix vs assume "vs \<in> set ev"
  with assms(1) have "fst vs \<in> set [''Fiebre'', ''Tos'', ''Dolor_cabeza'']" "snd vs \<in> set [Si, No]"
    by (simp_all add: sintomas_validos_def list_all_iff)
  with assms(2) show "state_index (variables m) (fst vs) (snd vs) \<noteq> None"
    unfolding list_all_iff by blast
qed

lemma positive_mass_symptoms:
  assumes "sintomas_validos ev" and "validate m = Inr ()"
      and "list_all (\<lambda>vf. list_all (\<lambda>w. 0 < w) (weights (snd vf))) (cpts m)"
      and "list_all (\<lambda>v. list_all (\<lambda>st. state_index (variables m) v st \<noteq> None) [Si, No])
                    [''Fiebre'', ''Tos'', ''Dolor_cabeza'']"
  shows "0 < evidence_mass m ev"
proof (rule positive_evidence_mass [OF assms(2)])
  show "valid_evidence m ev" by (rule sintomas_validos_evidence [OF assms(1,4)])
  fix vf w assume "vf \<in> set (cpts m)" "w \<in> set (weights (snd vf))"
  with assms(3) show "0 < w" by (auto simp: list_all_iff)
qed

lemma positive_mass_red_pgmpy: "sintomas_validos ev \<Longrightarrow> 0 < evidence_mass (to_model red_pgmpy) ev"
  by (rule positive_mass_symptoms [OF _ validate_red_pgmpy positive_red_pgmpy symptom_states_red_pgmpy])

lemma symptom_keys:
  "sintomas_validos ev \<Longrightarrow> k \<in> fst ` set ev \<Longrightarrow> k \<in> set [''Fiebre'', ''Tos'', ''Dolor_cabeza'']"
  by (auto simp: sintomas_validos_def list_all_iff)

lemma query_succeeds_red_pgmpy:
  assumes "sintomas_validos ev" and "x \<in> set (var_names (to_model red_pgmpy))" and "x \<notin> fst ` set ev"
  shows "\<exists>r. query (to_model red_pgmpy) [x] ev = Inr r"
proof -
  have keys: "k \<in> set (var_names (to_model red_pgmpy))" if "k \<in> fst ` set ev" for k
    using symptom_keys [OF assms(1) that] by (auto simp: var_names_red_pgmpy)
  have qok: "query_ok (to_model red_pgmpy) [x] ev"
    using assms(2,3) keys by (auto simp: query_ok_def validate_red_pgmpy list_all_iff)
  have ve: "valid_evidence (to_model red_pgmpy) ev"
    by (rule sintomas_validos_evidence [OF assms(1) symptom_states_red_pgmpy])
  have "evidence_mass (to_model red_pgmpy) ev \<noteq> 0"
    using positive_mass_red_pgmpy [OF assms(1)] by simp
  then show ?thesis by (simp add: query_single [OF qok ve] enumerate_def)
qed

lemma names_red_pgmpy: "set (var_names (to_model red_pgmpy)) = set enfermedades0"
  by (simp add: var_names_red_pgmpy enfermedades0_def) auto

lemma diagnosticar_pgmpy_succeeds:
  assumes "sintomas_validos ev" and "distinct (map fst ev)"
  shows "\<exists>d. diagnosticar_pgmpy red_pgmpy ev = Some d"
proof -
  let ?ev = "filter (\<lambda>nv. fst nv \<in> set recognised) ev"
  let ?enf = "filter (\<lambda>v. v \<notin> fst ` set ev) enfermedades0"
  have "\<And>nv. nv \<in> set ev \<Longrightarrow> fst nv \<in> set recognised"
    using symptom_keys [OF assms(1)] by (auto simp: recognised_def)
  then have all: "?ev = ev" by (simp add: filter_id_conv)
  have r: "recoger ev ([], enfermedades0) = Inr (ev, ?enf)"
    using recoger_dict [OF assms(2)] all by simp
  have "\<exists>d. consultar (to_model red_pgmpy) ev ?enf = Inr d"
  proof (rule consultar_succeeds, rule query_succeeds_red_pgmpy [OF assms(1)])
    fix x assume "x \<in> set ?enf"
    then have "x \<in> set enfermedades0" and x: "x \<notin> fst ` set ev" by simp_all
    then show "x \<in> set (var_names (to_model red_pgmpy))"
      by (simp only: names_red_pgmpy)
    show "x \<notin> fst ` set ev" by (rule x)
  qed
  then show ?thesis by (auto simp: diagnosticar_pgmpy_unfold r check_model_red_pgmpy)
qed

text \<open>
  C8. Every entry of every table of the three scripts is at least 0.1, and 0.1 occurs (in the
  fever table). For every assignment of the two state labels to a subset of Fiebre, Tos and
  Dolor_cabeza, the evidence has strictly positive weight under each of the three networks;
  in the network of the pgmpy script every query for an unobserved variable then returns a
  result, and \<open>diagnosticar_pgmpy\<close> returns a diagnosis: normalisation does not see a
  zero total and the failure branch is not taken.
\<close>

theorem C8_positive_support:
  assumes "sintomas_validos ev"
  shows "list_all (\<lambda>c. list_all (list_all (\<lambda>w. 1 / 10 \<le> w)) (cpd_values c)) (bn_cpds red_pgmpy) \<and>
         list_all (\<lambda>nd. list_all (\<lambda>w. 1 / 10 \<le> w) (dist_weights (snd nd))) (pom_states crear_red_bayesiana) \<and>
         list_all (\<lambda>vf. list_all (\<lambda>w. 1 / 10 \<le> w) (weights (snd vf))) (cpts crear_modelo_bayesiano) \<and>
         1 / 10 \<in> set (concat (cpd_values cpd_fiebre)) \<and>
         0 < evidence_mass (to_model red_pgmpy) ev \<and>
         0 < evidence_mass crear_modelo_bayesiano ev \<and>
         (\<exists>mp. pom_model crear_red_bayesiana = Some mp \<and> 0 < evidence_mass mp ev) \<and>
         (\<forall>x\<in>set (var_names (to_model red_pgmpy)).
             x \<notin> fst ` set ev \<longrightarrow> (\<exists>r. query (to_model red_pgmpy) [x] ev = Inr r)) \<and>
         (distinct (map fst ev) \<longrightarrow> (\<exists>d. diagnosticar_pgmpy red_pgmpy ev = Some d))"
proof -
  have pymc: "0 < evidence_mass crear_modelo_bayesiano ev"
    by (rule positive_mass_symptoms [OF assms validate_crear_modelo_bayesiano
          positive_crear_modelo_bayesiano symptom_states_crear_modelo_bayesiano])
  from pom_model_ok obtain mp where mp: "pom_model crear_red_bayesiana = Some mp"
    and mp_ok: "validate mp = Inr ()"
      "list_all (\<lambda>vf. list_all (\<lambda>w. 0 < w) (weights (snd vf))) (cpts mp)"
      "list_all (\<lambda>v. list_all (\<lambda>st. state_index (variables mp) v st \<noteq> None) [Si, No])
                [''Fiebre'', ''Tos'', ''Dolor_cabeza'']"
    by (auto split: option.splits)
  have pom: "\<exists>mp. pom_model crear_red_bayesiana = Some mp \<and> 0 < evidence_mass mp ev"
    using mp positive_mass_symptoms [OF assms mp_ok] by blast
  have q: "\<forall>x\<in>set (var_names (to_model red_pgmpy)).
             x \<notin> fst ` set ev \<longrightarrow> (\<exists>r. query (to_model red_pgmpy) [x] ev = Inr r)"
    using query_succeeds_red_pgmpy [OF assms] by blast
  have d: "distinct (map fst ev) \<longrightarrow> (\<exists>d. diagnosticar_pgmpy red_pgmpy ev = Some d)"
    using diagnosticar_pgmpy_succeeds [OF assms] by blast
  show ?thesis
    by (intro conjI floor_red_pgmpy floor_crear_red_bayesiana floor_crear_modelo_bayesiano
        floor_attained positive_mass_red_pgmpy [OF assms] pymc pom q d)
qed

lemma sintomas_validos_caso_1: "sintomas_validos caso_1"
  by code_simp

theorem C8_positive_support_witness:
  "sintomas_validos caso_1 \<and> 0 < evidence_mass (to_model red_pgmpy) caso_1 \<and>
   (\<exists>d. diagnosticar_pgmpy red_pgmpy caso_1 = Some d)"
proof -
  have d: "distinct (map fst caso_1)" by (simp add: caso_1_def)
  note c8 = C8_positive_support [OF sintomas_validos_caso_1]
  have "0 < evidence_mass (to_model red_pgmpy) caso_1"
    using c8 by (elim conjE)
  moreover have "distinct (map fst caso_1) \<longrightarrow> (\<exists>d. diagnosticar_pgmpy red_pgmpy caso_1 = Some d)"
    using c8 by (elim conjE)
  ultimately show ?thesis using d sintomas_validos_caso_1 by (simp only: simp_thms)
qed

section \<open>Keys that the diagnosis functions forward\<close>

text \<open>
  C9. In \<open>diagnosticar\<close> of the pomegranate script only the keys Fiebre, Tos and
  Dolor_cabeza reach \<open>predict_proba\<close>: two symptom dictionaries that agree on these
  three keys give the same diagnosis, whatever \<open>predict_proba\<close> is and whatever
  other keys the dictionaries hold.
\<close>

theorem C9_only_symptoms_forwarded:
  assumes "distinct (map fst s1)" and "distinct (map fst s2)"
      and "\<forall>k\<in>{''Fiebre'', ''Tos'', ''Dolor_cabeza''}. map_of s1 k = map_of s2 k"
  shows "diagnosticar predict_proba s1 = diagnosticar predict_proba s2"
proof -
  have "preparar s1 Map.empty k = preparar s2 Map.empty k" for k
  proof (cases "k \<in> {''Fiebre'', ''Tos'', ''Dolor_cabeza''}")
    case True
    with assms(3) have "map_of s1 k = map_of s2 k" by blast
    then show ?thesis
      by (simp only: preparar_dict [OF assms(1)] preparar_dict [OF assms(2)])
  next
    case False
    then show ?thesis
      by (simp only: preparar_dict [OF assms(1)] preparar_dict [OF assms(2)] if_False)
  qed
  then have "preparar s1 Map.empty = preparar s2 Map.empty" by (rule ext)
  then show ?thesis by (simp only: diagnosticar_def)
qed

lemma eco_full:
  "diagnosticar predict_proba_eco [(''Fiebre'', Si), (''Gripe'', Si), (''Edad'', ''40'')] =
     Some [(''PG'', Some Si), (''Gripe'', None), (''Neumonia'', None)]"
  by code_simp

theorem C9_only_symptoms_forwarded_witness:
  "distinct (map fst [(''Fiebre'', Si), (''Gripe'', Si), (''Edad'', ''40'')]) \<and>
   distinct (map fst [(''Fiebre'', Si)]) \<and>
   diagnosticar predict_proba_eco [(''Fiebre'', Si)] =
     Some [(''PG'', Some Si), (''Gripe'', None), (''Neumonia'', None)]"
proof -
  have d: "distinct (map fst [(''Fiebre'', Si), (''Gripe'', Si), (''Edad'', ''40'')])"
    "distinct (map fst [(''Fiebre'', Si)])" by simp_all
  have a: "\<forall>k\<in>{''Fiebre'', ''Tos'', ''Dolor_cabeza''}.
             map_of [(''Fiebre'', Si), (''Gripe'', Si), (''Edad'', ''40'')] k = map_of [(''Fiebre'', Si)] k"
    by simp
  from C9_only_symptoms_forwarded [OF d a, of predict_proba_eco] eco_full d
  show ?thesis by (simp only: simp_thms)
qed

text \<open>
  C10. In \<open>diagnosticar_pgmpy\<close>, for a symptom dictionary, the first loop ends with
  the evidence keys being the dictionary's keys among the six recognised names and with the
  list of variables to query being the six names without the evidence keys, in their order;
  the two are disjoint. A dictionary is returned exactly when the inference object is built
  and the library's query, called with the single target \<open>[x]\<close> and the collected
  evidence, returns values for every variable \<open>x\<close> of that list; the dictionary then
  has one entry per such variable, in order, holding what that query returned, and no entry
  for an evidence key. With the spec's engine as the library, the entry of \<open>x\<close> is
  the weights of \<open>query [x] evidencias\<close>.
\<close>

theorem C10_targets_exclude_evidence:
  assumes "distinct (map fst sintomas)"
  shows "\<exists>evidencias enfermedades.
           recoger sintomas ([], enfermedades0) = Inr (evidencias, enfermedades) \<and>
           fst ` set evidencias = fst ` set sintomas \<inter> set recognised \<and>
           enfermedades = filter (\<lambda>v. v \<notin> fst ` set evidencias) enfermedades0 \<and>
           set enfermedades \<inter> fst ` set evidencias = {} \<and>
           (\<forall>d. diagnosticar_pgmpy_con crear_motor consulta modelo sintomas = Some d \<longleftrightarrow>
                (\<exists>infer. crear_motor modelo = Inr infer \<and>
                   list_all2 (\<lambda>entry x. fst entry = x \<and>
                                consulta infer [x] evidencias = Inr (snd entry)) d enfermedades)) \<and>
           (\<forall>d. diagnosticar_pgmpy modelo sintomas = Some d \<longleftrightarrow>
                check_model modelo = Inr () \<and>
                list_all2 (\<lambda>entry x. fst entry = x \<and>
                             (\<exists>r. query (to_model modelo) [x] evidencias = Inr r \<and>
                                  snd entry = weights r)) d enfermedades)"
proof -
  let ?ev = "filter (\<lambda>nv. fst nv \<in> set recognised) sintomas"
  let ?enf = "filter (\<lambda>v. v \<notin> fst ` set sintomas) enfermedades0"
  have same: "set recognised = set enfermedades0"
    by (auto simp: recognised_def enfermedades0_def)
  have r: "recoger sintomas ([], enfermedades0) = Inr (?ev, ?enf)" by (rule recoger_dict [OF assms])
  have keys: "fst ` set ?ev = fst ` set sintomas \<inter> set recognised" by auto
  have enf: "?enf = filter (\<lambda>v. v \<notin> fst ` set ?ev) enfermedades0"
    by (rule filter_cong [OF refl]) (auto simp: same)
  have disj: "set ?enf \<inter> fst ` set ?ev = {}" by auto
  show ?thesis
  proof (intro exI conjI allI)
    show "recoger sintomas ([], enfermedades0) = Inr (?ev, ?enf)" by (rule r)
    show "fst ` set ?ev = fst ` set sintomas \<inter> set recognised" by (rule keys)
    show "?enf = filter (\<lambda>v. v \<notin> fst ` set ?ev) enfermedades0" by (rule enf)
    show "set ?enf \<inter> fst ` set ?ev = {}" by (rule disj)
  next
    fix d
    show "diagnosticar_pgmpy_con crear_motor consulta modelo sintomas = Some d \<longleftrightarrow>
            (\<exists>infer. crear_motor modelo = Inr infer \<and>
               list_all2 (\<lambda>entry x. fst entry = x \<and> consulta infer [x] ?ev = Inr (snd entry)) d ?enf)"
      by (rule diagnosticar_pgmpy_con_Some_iff [OF r])
  next
    fix d
    show "diagnosticar_pgmpy modelo sintomas = Some d \<longleftrightarrow>
            check_model modelo = Inr () \<and>
            list_all2 (\<lambda>entry x. fst entry = x \<and>
                         (\<exists>r. query (to_model modelo) [x] ?ev = Inr r \<and> snd entry = weights r)) d ?enf"
      by (rule diagnosticar_pgmpy_Some_iff [OF r])
  qed
qed

lemma recoger_caso_2:
  "recoger caso_2 ([], enfermedades0) =
     Inr ([(''Tos'', Si), (''Gripe'', Si)], [''PG'', ''Neumonia'', ''Fiebre'', ''Dolor_cabeza''])"
  by code_simp

lemma diagnosticar_pgmpy_caso_2:
  "diagnosticar_pgmpy red_pgmpy caso_2 =
     Some [(''PG'', [279 / 536, 25 / 67, 57 / 536]), (''Neumonia'', [56 / 67, 11 / 67]),
           (''Fiebre'', [296 / 335, 39 / 335]), (''Dolor_cabeza'', [7 / 10, 3 / 10])]"
  by code_simp

theorem C10_targets_exclude_evidence_witness:
  "distinct (map fst caso_2) \<and>
   recoger caso_2 ([], enfermedades0) =
     Inr ([(''Tos'', Si), (''Gripe'', Si)], [''PG'', ''Neumonia'', ''Fiebre'', ''Dolor_cabeza'']) \<and>
   diagnosticar_pgmpy red_pgmpy caso_2 =
     Some [(''PG'', [279 / 536, 25 / 67, 57 / 536]), (''Neumonia'', [56 / 67, 11 / 67]),
           (''Fiebre'', [296 / 335, 39 / 335]), (''Dolor_cabeza'', [7 / 10, 3 / 10])] \<and>
   list_all2 (\<lambda>entry x. fst entry = x \<and>
                (\<exists>r. query (to_model red_pgmpy) [x] [(''Tos'', Si), (''Gripe'', Si)] = Inr r \<and>
                     snd entry = weights r))
     [(''PG'', [279 / 536, 25 / 67, 57 / 536]), (''Neumonia'', [56 / 67, 11 / 67]),
      (''Fiebre'', [296 / 335, 39 / 335]), (''Dolor_cabeza'', [7 / 10, 3 / 10])]
     [''PG'', ''Neumonia'', ''Fiebre'', ''Dolor_cabeza'']"
proof -
  have d: "distinct (map fst caso_2)" by (simp add: caso_2_def)
  let ?d = "[(''PG'', [279 / 536, 25 / 67, 57 / 536 :: rat]), (''Neumonia'', [56 / 67, 11 / 67]),
             (''Fiebre'', [296 / 335, 39 / 335]), (''Dolor_cabeza'', [7 / 10, 3 / 10])]"
  from C10_targets_exclude_evidence [OF d, of motor_directo consulta_nan red_pgmpy]
  obtain evidencias enfermedades where
    r: "recoger caso_2 ([], enfermedades0) = Inr (evidencias, enfermedades)"
    and q: "\<forall>d. diagnosticar_pgmpy red_pgmpy caso_2 = Some d \<longleftrightarrow>
                check_model red_pgmpy = Inr () \<and>
                list_all2 (\<lambda>entry x. fst entry = x \<and>
                             (\<exists>r. query (to_model red_pgmpy) [x] evidencias = Inr r \<and>
                                  snd entry = weights r)) d enfermedades"
    by (elim exE conjE)
  have "Inr ([(''Tos'', Si), (''Gripe'', Si)], [''PG'', ''Neumonia'', ''Fiebre'', ''Dolor_cabeza'']) =
        (Inr (evidencias, enfermedades) :: error + ((var \<times> state) list \<times> var list))"
    using r by (simp only: recoger_caso_2)
  then have e: "evidencias = [(''Tos'', Si), (''Gripe'', Si)]"
    and f: "enfermedades = [''PG'', ''Neumonia'', ''Fiebre'', ''Dolor_cabeza'']"
    by (simp_all only: sum.inject prod.inject)
  from q [rule_format, of ?d] diagnosticar_pgmpy_caso_2
  have "list_all2 (\<lambda>entry x. fst entry = x \<and>
                (\<exists>r. query (to_model red_pgmpy) [x] evidencias = Inr r \<and> snd entry = weights r))
          ?d enfermedades"
    by (simp only: simp_thms)
  then show ?thesis
    using d recoger_caso_2 diagnosticar_pgmpy_caso_2 by (simp only: e f simp_thms)
qed

section \<open>The tables of the three scripts compared\<close>

lemma tables_tos:
  "cpd_values cpd_tos ! 0 ! 1 = 1 / 5 \<and>
   (case tos of ConditionalProbabilityTable rows ps \<Rightarrow> map_of rows [No, Si] | _ \<Rightarrow> None) = Some (3 / 10) \<and>
   p_tos 0 = 3 / 10"
  by code_simp

lemma tables_dolor:
  "cpd_values cpd_dolor ! 0 ! 1 = 3 / 10 \<and>
   (case dolor_cabeza of ConditionalProbabilityTable rows ps \<Rightarrow> map_of rows [No, Si] | _ \<Rightarrow> None) = Some (1 / 5) \<and>
   p_dolor 0 = 1 / 5"
  by code_simp

text \<open>
  C4 (the scripts disagree). The probability of a cough without pneumonia is 0.2 in the
  table of the pgmpy script and 0.3 in the pomegranate and the PyMC script; the probability
  of a headache without flu is 0.3 in the pgmpy script and 0.2 in the other two. For the
  test case that all three scripts run, the exact posterior of Gripe = S-i-acute is
  2368/7065 on the tables of the pgmpy script and 636/2005 on those of the other two.
\<close>

theorem C4_tables_differ:
  "cpd_values cpd_tos ! 0 ! 1 = 1 / 5 \<and>
   (case tos of ConditionalProbabilityTable rows ps \<Rightarrow> map_of rows [No, Si] | _ \<Rightarrow> None) = Some (3 / 10) \<and>
   p_tos 0 = 3 / 10 \<and>
   cpd_values cpd_dolor ! 0 ! 1 = 3 / 10 \<and>
   (case dolor_cabeza of ConditionalProbabilityTable rows ps \<Rightarrow> map_of rows [No, Si] | _ \<Rightarrow> None) = Some (1 / 5) \<and>
   p_dolor 0 = 1 / 5 \<and>
   posterior (to_model red_pgmpy) ''Gripe'' caso_1 Si = Inr (2368 / 7065) \<and>
   map_option (\<lambda>mp. posterior mp ''Gripe'' caso_1 Si) (pom_model crear_red_bayesiana) =
     Some (Inr (636 / 2005)) \<and>
   posterior crear_modelo_bayesiano ''Gripe'' caso_1 Si = Inr (636 / 2005) \<and>
   (2368 / 7065 :: rat) \<noteq> 636 / 2005"
proof -
  have "(2368 / 7065 :: rat) \<noteq> 636 / 2005" by simp
  then show ?thesis
    using tables_tos tables_dolor posterior_gripe_caso_1 posterior_pomegranate_caso_1
      posterior_pymc_caso_1
    by (simp only: simp_thms)
qed

end
